theory Spec2Isabelle
  imports Complex_Main "HOL-Library.Multiset" "HOL-Library.Log_Nat"
begin

section \<open>Python primitives used by the bot modules\<close>

text \<open>
  The modules \<^verbatim>\<open>bot_manager.py\<close> and \<^verbatim>\<open>bot_conductor.py\<close> use a handful of Python
  built-ins whose behaviour matters for the properties below: \<^verbatim>\<open>range\<close>, list slicing,
  integer floor division, float arithmetic and the exceptions they raise.  Python
  integers are unbounded and are modelled by \<^typ>\<open>int\<close>.  A float that the program only
  passes along and compares with zero (the retry delay) is a \<^typ>\<open>real\<close>; a float that
  the program computes (the success rate) is the binary64 number that Python computes,
  with its rounding, see below.
\<close>

datatype py_error = ValueError | ZeroDivisionError

text \<open>\<^verbatim>\<open>range(n)\<close>: the integers \<open>0, 1, \<dots>, n - 1\<close>; empty when \<open>n \<le> 0\<close>.\<close>

definition py_range :: "int \<Rightarrow> int list" where
  "py_range n = map int [0..<nat n]"

text \<open>
  \<^verbatim>\<open>xs[i:j]\<close>: a negative index counts from the end, and both indices are clamped to
  the list, so a slice never raises.
\<close>

definition clamp_index :: "int \<Rightarrow> int \<Rightarrow> nat" where
  "clamp_index n i = nat (if i < 0 then max (n + i) 0 else min i n)"

definition slice :: "'a list \<Rightarrow> int \<Rightarrow> int \<Rightarrow> 'a list" where
  "slice xs i j =
     (let n = int (length xs); lo = clamp_index n i; hi = clamp_index n j
      in take (hi - lo) (drop lo xs))"

section \<open>Float arithmetic\<close>

text \<open>
  A Python float is an IEEE 754 binary64 number; the finite ones are rationals.  The
  operations \<^verbatim>\<open>int / int\<close> and \<^verbatim>\<open>float * float\<close> return the float nearest to the exact
  result, the one with the even significand when two are equally near.

  \<open>round_half_even x\<close> is the integer nearest to \<open>x\<close>, the even one of the two when \<open>x\<close>
  lies halfway.  \<open>floor_log2 x\<close> is \<open>\<lfloor>log\<^sub>2 x\<rfloor>\<close> for a positive \<open>x = p / q\<close>: with \<open>k\<close> the
  difference of the bit lengths of \<open>p\<close> and \<open>q\<close> it is \<open>k\<close> or \<open>k - 1\<close>.  \<open>binary64 x\<close> is
  the float nearest to \<open>x\<close>: the significand has 53 bits, and the exponent of its last bit
  is at least \<open>-1074\<close> (the subnormal numbers).  The overflow of the format, at \<open>2\<^sup>1\<^sup>0\<^sup>2\<^sup>4\<close>,
  is left out: the program computes floats between \<open>0\<close> and \<open>100\<close> only.
\<close>

definition round_half_even :: "rat \<Rightarrow> int" where
  "round_half_even x =
     (let f = \<lfloor>x\<rfloor>; d = x - of_int f
      in if d < 1 / 2 then f else if 1 / 2 < d then f + 1 else if even f then f else f + 1)"

definition floor_log2 :: "rat \<Rightarrow> int" where
  "floor_log2 x =
     (case quotient_of x of
        (p, q) \<Rightarrow> let k = bitlen p - bitlen q in if 2 powi k \<le> x then k else k - 1)"

definition binary64 :: "rat \<Rightarrow> rat" where
  "binary64 x =
     (if x = 0 then 0
      else let e = max (floor_log2 \<bar>x\<bar> - 52) (- 1074)
           in of_int (round_half_even (x / 2 powi e)) * 2 powi e)"

text \<open>
  \<^verbatim>\<open>a / b\<close> on integers (the divisor is not zero where the program divides) and
  \<^verbatim>\<open>x * y\<close> on floats.
\<close>

definition int_truediv :: "int \<Rightarrow> int \<Rightarrow> rat" where
  "int_truediv a b = binary64 (of_int a / of_int b)"

definition float_mul :: "rat \<Rightarrow> rat \<Rightarrow> rat" where
  "float_mul x y = binary64 (x * y)"

section \<open>\<^verbatim>\<open>BotManager._divide_tasks\<close>\<close>

text \<open>
  The body of the \<^verbatim>\<open>for i in range(self.num_bots)\<close> loop, with the two loop variables
  \<^verbatim>\<open>batches\<close> and \<^verbatim>\<open>start_idx\<close> passed along.
\<close>

fun divide_loop ::
  "'t list \<Rightarrow> int \<Rightarrow> int \<Rightarrow> int list \<Rightarrow> 't list list \<Rightarrow> int \<Rightarrow> 't list list" where
  "divide_loop tasks batch_size remainder [] batches start_idx = batches"
| "divide_loop tasks batch_size remainder (i # is) batches start_idx =
     (let current_batch_size = batch_size + (if i < remainder then 1 else 0);
          end_idx = start_idx + current_batch_size
      in divide_loop tasks batch_size remainder is
           (batches @ [slice tasks start_idx end_idx]) end_idx)"

text \<open>
  \<^verbatim>\<open>len(tasks) // self.num_bots\<close> raises \<^verbatim>\<open>ZeroDivisionError\<close> when the divisor is
  zero; Python's \<^verbatim>\<open>//\<close> and \<^verbatim>\<open>%\<close> round towards minus infinity, as \<open>div\<close> and \<open>mod\<close> on
  \<^typ>\<open>int\<close> do.
\<close>

definition divide_tasks :: "int \<Rightarrow> 't list \<Rightarrow> py_error + 't list list" where
  "divide_tasks num_bots tasks =
     (if tasks = [] then Inr (map (\<lambda>_. []) (py_range num_bots))
      else if num_bots = 0 then Inl ZeroDivisionError
      else
        let batch_size = int (length tasks) div num_bots;
            remainder = int (length tasks) mod num_bots
        in Inr (divide_loop tasks batch_size remainder (py_range num_bots) [] 0))"


section \<open>\<^verbatim>\<open>bot_manager.py\<close>: data\<close>

datatype BotState = IDLE | ACTIVE | ERROR | COMPLETED

fun BotState_value :: "BotState \<Rightarrow> string" where
  "BotState_value IDLE = ''idle''"
| "BotState_value ACTIVE = ''active''"
| "BotState_value ERROR = ''error''"
| "BotState_value COMPLETED = ''completed''"

text \<open>
  The dataclasses \<^verbatim>\<open>BotProgress\<close> and \<^verbatim>\<open>TaskResult\<close>.  Their wall-clock fields
  (\<^verbatim>\<open>start_time\<close>, \<^verbatim>\<open>end_time\<close>, \<^verbatim>\<open>execution_time\<close>) are readings of the system clock
  and are left out; every other field is kept.
\<close>

record 't BotProgress =
  pr_bot_id :: int
  state :: BotState
  tasks_completed :: int
  tasks_failed :: int
  current_task :: "'t option"
  error_message :: "string option"

record ('t, 'r) TaskResult =
  tr_bot_id :: int
  task :: 't
  success :: bool
  result :: "'r option"
  error :: "string option"

text \<open>
  The task processor is a callable supplied by the caller.  It either returns a value or
  raises an \<^verbatim>\<open>Exception\<close> (whose \<^verbatim>\<open>str\<close> is recorded), and it may depend on and change
  state of its own, of type \<open>'p\<close>.
\<close>

datatype 'r outcome = Returned 'r | Raised string

type_synonym ('t, 'r, 'p) processor = "'t \<Rightarrow> 'p \<Rightarrow> 'r outcome \<times> 'p"

text \<open>
  What a run does to its surroundings: the processor's state, and the sequence of calls
  of the processor and of \<^verbatim>\<open>time.sleep\<close>, in the order they happen.
\<close>

datatype 't event = Invoke 't | Sleep real

record ('t, 'p) world =
  proc_state :: 'p
  trace :: "'t event list"

record ('t, 'r, 'p) Bot =
  bot_id :: int
  task_processor :: "('t, 'r, 'p) processor"
  max_retries :: int
  retry_delay :: real
  progress :: "'t BotProgress"
  results :: "('t, 'r) TaskResult list"

record ('t, 'r, 'p) BotManager =
  num_bots :: int
  mgr_task_processor :: "('t, 'r, 'p) processor"
  mgr_max_retries :: int
  mgr_retry_delay :: real
  bots :: "('t, 'r, 'p) Bot list"
  all_results :: "('t, 'r) TaskResult list"

text \<open>The dictionaries built by \<^verbatim>\<open>to_dict\<close> and \<^verbatim>\<open>_compile_results\<close>.\<close>

record progress_dict =
  d_bot_id :: int
  d_state :: string
  d_tasks_completed :: int
  d_tasks_failed :: int
  d_current_task :: "string option"
  d_error_message :: "string option"

record 't failed_task =
  ft_task :: 't
  ft_error :: "string option"
  ft_bot_id :: int

record ('t, 'r) report =
  total_tasks :: int
  successful :: int
  failed :: int
  success_rate :: rat
  report_results :: "('t, 'r) TaskResult list"
  bot_progress :: "progress_dict list"
  failed_tasks :: "'t failed_task list"

text \<open>
  \<^verbatim>\<open>to_dict\<close> applies \<^verbatim>\<open>str\<close> and a truth test to the current task, whose type is the
  caller's; the two operations are taken as given for the task type.
\<close>

record 't py_object =
  truthy :: "'t \<Rightarrow> bool"
  str :: "'t \<Rightarrow> string"

section \<open>\<^verbatim>\<open>bot_manager.py\<close>: the worker\<close>

definition BotProgress_init :: "int \<Rightarrow> 't BotProgress" where
  "BotProgress_init i =
     \<lparr>pr_bot_id = i, state = IDLE, tasks_completed = 0, tasks_failed = 0,
      current_task = None, error_message = None\<rparr>"

definition to_dict :: "'t py_object \<Rightarrow> 't BotProgress \<Rightarrow> progress_dict" where
  "to_dict py p =
     \<lparr>d_bot_id = pr_bot_id p,
      d_state = BotState_value (state p),
      d_tasks_completed = tasks_completed p,
      d_tasks_failed = tasks_failed p,
      d_current_task =
        (case current_task p of
           None \<Rightarrow> None
         | Some t \<Rightarrow> if truthy py t then Some (str py t) else None),
      d_error_message = error_message p\<rparr>"

definition Bot_init ::
  "int \<Rightarrow> ('t, 'r, 'p) processor \<Rightarrow> int \<Rightarrow> real \<Rightarrow> ('t, 'r, 'p) Bot" where
  "Bot_init i proc retries delay =
     \<lparr>bot_id = i, task_processor = proc, max_retries = retries, retry_delay = delay,
      progress = BotProgress_init i, results = []\<rparr>"

text \<open>One call \<^verbatim>\<open>self.task_processor(task)\<close>.\<close>

definition invoke ::
  "('t, 'r, 'p) processor \<Rightarrow> 't \<Rightarrow> ('t, 'p) world \<Rightarrow> 'r outcome \<times> ('t, 'p) world" where
  "invoke proc t w =
     (case proc t (proc_state w) of
        (out, s) \<Rightarrow> (out, w\<lparr>proc_state := s, trace := trace w @ [Invoke t]\<rparr>))"

text \<open>\<^verbatim>\<open>time.sleep(d)\<close> raises \<^verbatim>\<open>ValueError\<close> for a negative \<open>d\<close>.\<close>

definition sleep :: "real \<Rightarrow> ('t, 'p) world \<Rightarrow> py_error + ('t, 'p) world" where
  "sleep d w = (if d < 0 then Inl ValueError else Inr (w\<lparr>trace := trace w @ [Sleep d]\<rparr>))"

text \<open>
  The retry loop \<^verbatim>\<open>for attempt in range(self.max_retries)\<close> of
  \<^verbatim>\<open>_process_single_task\<close>, with the code after the loop as the case of the exhausted
  range.  The loop variable \<^verbatim>\<open>last_error\<close> is passed along.  An exception that leaves the
  method (only \<^verbatim>\<open>time.sleep\<close> can raise one, inside the handler) is the \<open>Inl\<close> result; the
  bot and the world are returned as they are at that point.
\<close>

fun retry_loop ::
  "('t, 'r, 'p) Bot \<Rightarrow> 't \<Rightarrow> int list \<Rightarrow> string option \<Rightarrow> ('t, 'p) world \<Rightarrow>
     (py_error + ('t, 'r) TaskResult) \<times> ('t, 'r, 'p) Bot \<times> ('t, 'p) world" where
  "retry_loop self t [] last_error w =
     (Inr \<lparr>tr_bot_id = bot_id self, task = t, success = False, result = None,
           error = last_error\<rparr>,
      self\<lparr>progress := (progress self)
             \<lparr>tasks_failed := tasks_failed (progress self) + 1,
              error_message := last_error\<rparr>\<rparr>,
      w)"
| "retry_loop self t (attempt # attempts) last_error w =
     (case invoke (task_processor self) t w of
        (Returned r, w1) \<Rightarrow>
          (Inr \<lparr>tr_bot_id = bot_id self, task = t, success = True, result = Some r,
                error = None\<rparr>,
           self\<lparr>progress := (progress self)
                  \<lparr>tasks_completed := tasks_completed (progress self) + 1\<rparr>\<rparr>,
           w1)
      | (Raised e, w1) \<Rightarrow>
          if attempt < max_retries self - 1 then
            (case sleep (retry_delay self) w1 of
               Inl err \<Rightarrow> (Inl err, self, w1)
             | Inr w2 \<Rightarrow> retry_loop self t attempts (Some e) w2)
          else retry_loop self t attempts (Some e) w1)"

definition process_single_task ::
  "('t, 'r, 'p) Bot \<Rightarrow> 't \<Rightarrow> ('t, 'p) world \<Rightarrow>
     (py_error + ('t, 'r) TaskResult) \<times> ('t, 'r, 'p) Bot \<times> ('t, 'p) world" where
  "process_single_task self t w =
     retry_loop (self\<lparr>progress := (progress self)\<lparr>current_task := Some t\<rparr>\<rparr>)
       t (py_range (max_retries self)) None w"

text \<open>The loop \<^verbatim>\<open>for task in tasks\<close> of \<^verbatim>\<open>process_tasks\<close>.\<close>

fun tasks_loop ::
  "('t, 'r, 'p) Bot \<Rightarrow> 't list \<Rightarrow> ('t, 'p) world \<Rightarrow>
     (py_error + unit) \<times> ('t, 'r, 'p) Bot \<times> ('t, 'p) world" where
  "tasks_loop self [] w = (Inr (), self, w)"
| "tasks_loop self (t # ts) w =
     (case process_single_task self t w of
        (Inl err, bot1, w1) \<Rightarrow> (Inl err, bot1, w1)
      | (Inr r, bot1, w1) \<Rightarrow> tasks_loop (bot1\<lparr>results := results bot1 @ [r]\<rparr>) ts w1)"

definition process_tasks ::
  "('t, 'r, 'p) Bot \<Rightarrow> 't list \<Rightarrow> ('t, 'p) world \<Rightarrow>
     (py_error + ('t, 'r) TaskResult list) \<times> ('t, 'r, 'p) Bot \<times> ('t, 'p) world" where
  "process_tasks self ts w =
     (case tasks_loop (self\<lparr>progress := (progress self)\<lparr>state := ACTIVE\<rparr>\<rparr>) ts w of
        (Inl err, bot1, w1) \<Rightarrow> (Inl err, bot1, w1)
      | (Inr _, bot1, w1) \<Rightarrow>
          let bot2 = bot1\<lparr>progress := (progress bot1)
                            \<lparr>state := COMPLETED, current_task := None\<rparr>\<rparr>
          in (Inr (results bot2), bot2, w1))"

text \<open>\<^verbatim>\<open>Bot.get_progress\<close> copies the progress record field by field.\<close>

definition get_progress :: "('t, 'r, 'p) Bot \<Rightarrow> 't BotProgress" where
  "get_progress self =
     \<lparr>pr_bot_id = pr_bot_id (progress self),
      state = state (progress self),
      tasks_completed = tasks_completed (progress self),
      tasks_failed = tasks_failed (progress self),
      current_task = current_task (progress self),
      error_message = error_message (progress self)\<rparr>"

section \<open>\<^verbatim>\<open>bot_manager.py\<close>: the manager\<close>

definition BotManager_init ::
  "int \<Rightarrow> ('t, 'r, 'p) processor \<Rightarrow> int \<Rightarrow> real \<Rightarrow> py_error + ('t, 'r, 'p) BotManager" where
  "BotManager_init n proc retries delay =
     (if n \<le> 0 then Inl ValueError
      else Inr \<lparr>num_bots = n, mgr_task_processor = proc, mgr_max_retries = retries,
                mgr_retry_delay = delay, bots = [], all_results = []\<rparr>)"

definition compile_results ::
  "'t py_object \<Rightarrow> ('t, 'r, 'p) BotManager \<Rightarrow> ('t, 'r) TaskResult list \<Rightarrow> ('t, 'r) report" where
  "compile_results py m rs =
     (let successful_rs = filter success rs;
          failed_rs = filter (\<lambda>r. \<not> success r) rs
      in \<lparr>total_tasks = int (length rs),
          successful = int (length successful_rs),
          failed = int (length failed_rs),
          success_rate =
            (if rs \<noteq> []
             then float_mul (int_truediv (int (length successful_rs)) (int (length rs))) 100
             else 0),
          report_results = rs,
          bot_progress = map (\<lambda>b. to_dict py (get_progress b)) (bots m),
          failed_tasks =
            map (\<lambda>r. \<lparr>ft_task = task r, ft_error = error r, ft_bot_id = tr_bot_id r\<rparr>)
              failed_rs\<rparr>)"

text \<open>
  \<^verbatim>\<open>as_completed\<close> yields the submitted futures in the order in which they finish, which
  the program does not control.  The order is given by a list of choices: at each step
  the next future is the one at position \<open>c mod n\<close> among the \<open>n\<close> still pending (position
  \<open>0\<close> when the choices are used up), so every list of choices gives an order and every
  order is given by some list.
\<close>

function as_completed :: "nat list \<Rightarrow> 'a list \<Rightarrow> 'a list" where
  "as_completed cs [] = []"
| "as_completed cs (x # xs) =
     (let k = (case cs of [] \<Rightarrow> 0 | c # _ \<Rightarrow> c mod length (x # xs))
      in (x # xs) ! k # as_completed (tl cs) (take k (x # xs) @ drop (Suc k) (x # xs)))"
  by pat_completeness auto
termination
  by (relation "measure (\<lambda>(cs, xs). length xs)") (auto split: list.splits)

text \<open>
  The worker threads share nothing with each other but the processor: each works on its
  own \<^verbatim>\<open>Bot\<close>, and \<^verbatim>\<open>all_results\<close> is extended by the thread that called \<^verbatim>\<open>execute\<close>,
  one finished future at a time.  The model therefore runs each submitted worker to its
  end, one after the other in the order of completion; the processor's state is passed
  from one call to the next, so a processor whose results depend on the calls made by
  other workers is covered.  A future is the pair of the index of its bot in
  \<^verbatim>\<open>self.bots\<close> and the batch it was submitted with.  When \<^verbatim>\<open>future.result()\<close> raises,
  the error is logged and the results of that worker are not added.
\<close>

fun collect ::
  "(nat \<times> 't list) list \<Rightarrow> ('t, 'r, 'p) BotManager \<Rightarrow> ('t, 'p) world \<Rightarrow>
     ('t, 'r, 'p) BotManager \<times> ('t, 'p) world" where
  "collect [] m w = (m, w)"
| "collect ((i, batch) # futures) m w =
     (case process_tasks (bots m ! i) batch w of
        (Inr rs, bot1, w1) \<Rightarrow>
          collect futures
            (m\<lparr>bots := (bots m)[i := bot1], all_results := all_results m @ rs\<rparr>) w1
      | (Inl err, bot1, w1) \<Rightarrow>
          collect futures (m\<lparr>bots := (bots m)[i := bot1]\<rparr>) w1)"

text \<open>
  \<^verbatim>\<open>ThreadPoolExecutor(max_workers=n)\<close> raises \<^verbatim>\<open>ValueError\<close> unless \<open>n > 0\<close>.
\<close>

definition execute ::
  "'t py_object \<Rightarrow> nat list \<Rightarrow> ('t, 'r, 'p) BotManager \<Rightarrow> 't list \<Rightarrow> ('t, 'p) world \<Rightarrow>
     (py_error + ('t, 'r) report) \<times> ('t, 'r, 'p) BotManager \<times> ('t, 'p) world" where
  "execute py order m tasks w =
     (if tasks = [] then (Inr (compile_results py m []), m, w)
      else
        case divide_tasks (num_bots m) tasks of
          Inl err \<Rightarrow> (Inl err, m, w)
        | Inr task_batches \<Rightarrow>
            let m1 = m\<lparr>bots :=
                       map (\<lambda>i. Bot_init i (mgr_task_processor m) (mgr_max_retries m)
                                  (mgr_retry_delay m))
                         (py_range (num_bots m))\<rparr>
            in if num_bots m \<le> 0 then (Inl ValueError, m1, w)
               else
                 let future_to_bot =
                       filter (\<lambda>(i, batch). batch \<noteq> [])
                         (zip [0..<length (bots m1)] task_batches);
                     (m2, w2) = collect (as_completed order future_to_bot) m1 w
                 in (Inr (compile_results py m2 (all_results m2)), m2, w2))"

section \<open>\<^verbatim>\<open>auth_manager.py\<close> and \<^verbatim>\<open>phoenix_bot.py\<close>: the bot of the batch pipeline\<close>

text \<open>
  Dictionaries with string keys are association lists in insertion order; \<open>dict_set\<close> is
  \<^verbatim>\<open>d[k] = v\<close>, \<open>dict_update\<close> is \<^verbatim>\<open>d.update(e)\<close> and \<open>dict_get\<close> is \<^verbatim>\<open>d.get(k, default)\<close>.
\<close>

type_synonym str_dict = "(string \<times> string) list"

fun dict_set :: "string \<Rightarrow> string \<Rightarrow> str_dict \<Rightarrow> str_dict" where
  "dict_set k v [] = [(k, v)]"
| "dict_set k v ((k', v') # d) = (if k = k' then (k, v) # d else (k', v') # dict_set k v d)"

definition dict_update :: "str_dict \<Rightarrow> str_dict \<Rightarrow> str_dict" where
  "dict_update d e = foldl (\<lambda>acc (k, v). dict_set k v acc) d e"

definition dict_get :: "str_dict \<Rightarrow> string \<Rightarrow> string \<Rightarrow> string" where
  "dict_get d k dflt = (case map_of d k of None \<Rightarrow> dflt | Some v \<Rightarrow> v)"

text \<open>The value of \<^verbatim>\<open>response.json()\<close>, and Python's truth test on it.\<close>

datatype json =
  JNull | JBool bool | JNum real | JStr string | JArr "json list" | JObj "(string \<times> json) list"

fun json_truthy :: "json \<Rightarrow> bool" where
  "json_truthy JNull = False"
| "json_truthy (JBool b) = b"
| "json_truthy (JNum x) = (x \<noteq> 0)"
| "json_truthy (JStr s) = (s \<noteq> [])"
| "json_truthy (JArr xs) = (xs \<noteq> [])"
| "json_truthy (JObj kvs) = (kvs \<noteq> [])"

text \<open>
  The Phoenix server is outside the program.  A request through \<^verbatim>\<open>requests.Session\<close>
  either gives a response or raises; \<open>json_body\<close> is \<open>None\<close> when \<^verbatim>\<open>response.json()\<close>
  raises.  The server, the session's connection and the clock that
  \<^verbatim>\<open>_generate_session_id\<close> hashes are a state of type \<open>'n\<close> with three operations.
\<close>

record response =
  status_code :: int
  resp_cookies :: str_dict
  json_body :: "json option"

datatype http_result = Response response | Timeout | RequestException | OtherException

record 'n remote =
  post :: "string \<Rightarrow> str_dict \<Rightarrow> 'n \<Rightarrow> http_result \<times> 'n"
  get :: "string \<Rightarrow> str_dict \<Rightarrow> str_dict \<Rightarrow> 'n \<Rightarrow> http_result \<times> 'n"
  generate_session_id :: "string \<Rightarrow> 'n \<Rightarrow> string"

datatype net_event =
  Created int | Posted string | Queried int string | Closed int

record 'n net =
  net_state :: 'n
  net_log :: "net_event list"

record PhoenixBot =
  credentials :: str_dict
  batch_id :: int
  session_cookies :: str_dict
  authenticated :: bool
  cookie :: "str_dict option"

definition PhoenixBot_init :: "str_dict \<Rightarrow> int \<Rightarrow> 'n net \<Rightarrow> PhoenixBot \<times> 'n net" where
  "PhoenixBot_init creds idx w =
     (\<lparr>credentials = creds, batch_id = idx, session_cookies = [], authenticated = False,
       cookie = None\<rparr>,
      w\<lparr>net_log := net_log w @ [Created idx]\<rparr>)"

definition create_mock_cookie :: "'n remote \<Rightarrow> string \<Rightarrow> 'n \<Rightarrow> str_dict" where
  "create_mock_cookie rem username s =
     (let session_id = generate_session_id rem username s
      in [(''session_id'', session_id),
          (''auth_token'', ''mock_token_'' @ session_id),
          (''user'', username)])"

text \<open>
  \<^verbatim>\<open>AuthManager.get_cookie\<close>.  A missing key and an empty string both fail the test
  \<^verbatim>\<open>not username or not password\<close>.  Every exception is handled inside the method.
\<close>

definition get_cookie ::
  "'n remote \<Rightarrow> str_dict \<Rightarrow> str_dict \<Rightarrow> 'n net \<Rightarrow> str_dict option \<times> 'n net" where
  "get_cookie rem session creds w =
     (let base_url = dict_get creds ''base_url'' ''https://phoenix.example.com'';
          username = dict_get creds ''username'' '''';
          password = dict_get creds ''password''  ''''
      in if username = [] \<or> password = [] then (None, w)
         else
           let auth_url = base_url @ ''/auth/login'';
               auth_data = [(''username'', username), (''password'', password)]
           in case post rem auth_url auth_data (net_state w) of
                (res, s) \<Rightarrow>
                  let w1 = w\<lparr>net_state := s, net_log := net_log w @ [Posted auth_url]\<rparr>
                  in case res of
                       Response r \<Rightarrow>
                         if status_code r = 200 then
                           (if resp_cookies r \<noteq> [] then
                              (Some (dict_set ''session_id'' (generate_session_id rem username s)
                                       (resp_cookies r)), w1)
                            else (Some (create_mock_cookie rem username s), w1))
                         else (None, w1)
                     | Timeout \<Rightarrow> (None, w1)
                     | RequestException \<Rightarrow> (Some (create_mock_cookie rem username s), w1)
                     | OtherException \<Rightarrow> (None, w1))"

text \<open>
  \<^verbatim>\<open>PhoenixBot.authenticate\<close>: an empty or missing cookie is a failure.  The method
  handles every exception, so it always returns a truth value.
\<close>

definition authenticate ::
  "'n remote \<Rightarrow> PhoenixBot \<Rightarrow> 'n net \<Rightarrow> bool \<times> PhoenixBot \<times> 'n net" where
  "authenticate rem self w =
     (case get_cookie rem (session_cookies self) (credentials self) w of
        (c, w1) \<Rightarrow>
          let self1 = self\<lparr>cookie := c\<rparr>
          in case c of
               None \<Rightarrow> (False, self1, w1)
             | Some d \<Rightarrow>
                 if d = [] then (False, self1, w1)
                 else (True,
                       self1\<lparr>session_cookies := dict_update (session_cookies self1) d,
                             authenticated := True\<rparr>,
                       w1))"

text \<open>
  \<^verbatim>\<open>PhoenixBot._query_phoenix\<close>: a query template that is \<^verbatim>\<open>None\<close> or empty selects the
  default endpoint.  Anything but a response with status 200 and a readable body gives
  \<^verbatim>\<open>None\<close>.
\<close>

definition query_phoenix ::
  "'n remote \<Rightarrow> PhoenixBot \<Rightarrow> string \<Rightarrow> string option \<Rightarrow> 'n net \<Rightarrow> json option \<times> 'n net" where
  "query_phoenix rem self p query_template w =
     (let base_url = dict_get (credentials self) ''base_url'' ''https://phoenix.example.com'';
          (query_url, params) =
            (case query_template of
               Some q \<Rightarrow>
                 if q \<noteq> [] then (base_url @ ''/query'', [(''template'', q), (''pri'', p)])
                 else (base_url @ ''/api/data'', [(''pri'', p), (''format'', ''json'')])
             | None \<Rightarrow> (base_url @ ''/api/data'', [(''pri'', p), (''format'', ''json'')]))
      in case get rem query_url params (session_cookies self) (net_state w) of
           (res, s) \<Rightarrow>
             let w1 = w\<lparr>net_state := s, net_log := net_log w @ [Queried (batch_id self) p]\<rparr>
             in case res of
                  Response r \<Rightarrow> if status_code r = 200 then (json_body r, w1) else (None, w1)
                | _ \<Rightarrow> (None, w1))"

text \<open>One extracted record; its \<^verbatim>\<open>timestamp\<close>, a clock reading, is left out.\<close>

record extracted =
  pri :: string
  data :: json
  x_bot_id :: int

record batch_result =
  br_results :: "extracted list"
  br_failed :: "string list"

text \<open>
  The loop \<^verbatim>\<open>for pri in pri_batch\<close> of \<^verbatim>\<open>extract_batch_data\<close>, with the lists
  \<^verbatim>\<open>results\<close> and \<^verbatim>\<open>failed\<close> passed along.
\<close>

fun extract_loop ::
  "'n remote \<Rightarrow> PhoenixBot \<Rightarrow> string option \<Rightarrow> string list \<Rightarrow> extracted list \<Rightarrow>
     string list \<Rightarrow> 'n net \<Rightarrow> batch_result \<times> 'n net" where
  "extract_loop rem self query_template [] rs fs w = (\<lparr>br_results = rs, br_failed = fs\<rparr>, w)"
| "extract_loop rem self query_template (p # ps) rs fs w =
     (case query_phoenix rem self p query_template w of
        (Some d, w1) \<Rightarrow>
          if json_truthy d then
            extract_loop rem self query_template ps
              (rs @ [\<lparr>pri = p, data = d, x_bot_id = batch_id self\<rparr>]) fs w1
          else extract_loop rem self query_template ps rs (fs @ [p]) w1
      | (None, w1) \<Rightarrow> extract_loop rem self query_template ps rs (fs @ [p]) w1)"

definition extract_batch_data ::
  "'n remote \<Rightarrow> PhoenixBot \<Rightarrow> string list \<Rightarrow> string option \<Rightarrow> 'n net \<Rightarrow>
     batch_result \<times> 'n net" where
  "extract_batch_data rem self pri_batch query_template w =
     (if \<not> authenticated self then (\<lparr>br_results = [], br_failed = pri_batch\<rparr>, w)
      else extract_loop rem self query_template pri_batch [] [] w)"

definition cleanup :: "PhoenixBot \<Rightarrow> 'n net \<Rightarrow> 'n net" where
  "cleanup self w = w\<lparr>net_log := net_log w @ [Closed (batch_id self)]\<rparr>"

section \<open>\<^verbatim>\<open>bot_conductor.py\<close>\<close>

record BotConductor =
  max_workers :: int
  batch_size :: int

definition BotConductor_init :: "int \<Rightarrow> int \<Rightarrow> BotConductor" where
  "BotConductor_init workers bsize = \<lparr>max_workers = workers, batch_size = bsize\<rparr>"

text \<open>
  \<^verbatim>\<open>range(start, stop, step)\<close>: counting up for a positive step, down for a negative one,
  and a \<^verbatim>\<open>ValueError\<close> for step zero.
\<close>

function range_up :: "int \<Rightarrow> int \<Rightarrow> int \<Rightarrow> int list" where
  "range_up i stop step =
     (if 0 < step \<and> i < stop then i # range_up (i + step) stop step else [])"
  by pat_completeness auto
termination
  by (relation "measure (\<lambda>(i, stop, step). nat (stop - i))") auto

function range_down :: "int \<Rightarrow> int \<Rightarrow> int \<Rightarrow> int list" where
  "range_down i stop step =
     (if step < 0 \<and> stop < i then i # range_down (i + step) stop step else [])"
  by pat_completeness auto
termination
  by (relation "measure (\<lambda>(i, stop, step). nat (i - stop))") auto

declare range_up.simps [simp del] range_down.simps [simp del]

definition py_range3 :: "int \<Rightarrow> int \<Rightarrow> int \<Rightarrow> py_error + int list" where
  "py_range3 start stop step =
     (if step = 0 then Inl ValueError
      else if 0 < step then Inr (range_up start stop step)
      else Inr (range_down start stop step))"

text \<open>The loop of \<^verbatim>\<open>divide_pris\<close>, with the list \<^verbatim>\<open>batches\<close> passed along.\<close>

fun batch_loop :: "string list \<Rightarrow> int \<Rightarrow> int list \<Rightarrow> string list list \<Rightarrow> string list list" where
  "batch_loop pri_list bsize [] batches = batches"
| "batch_loop pri_list bsize (i # is) batches =
     batch_loop pri_list bsize is (batches @ [slice pri_list i (i + bsize)])"

definition divide_pris :: "BotConductor \<Rightarrow> string list \<Rightarrow> py_error + string list list" where
  "divide_pris self pri_list =
     (if pri_list = [] then Inr []
      else
        case py_range3 0 (int (length pri_list)) (batch_size self) of
          Inl err \<Rightarrow> Inl err
        | Inr indices \<Rightarrow> Inr (batch_loop pri_list (batch_size self) indices []))"

text \<open>
  \<^verbatim>\<open>_process_batch\<close>.  Both \<^verbatim>\<open>authenticate\<close> and \<^verbatim>\<open>extract_batch_data\<close> handle every
  exception themselves, so the \<^verbatim>\<open>except\<close> clause of \<^verbatim>\<open>_process_batch\<close> is never entered;
  the \<^verbatim>\<open>finally\<close> clause runs \<^verbatim>\<open>cleanup\<close> on both ways out.
\<close>

definition process_batch ::
  "'n remote \<Rightarrow> BotConductor \<Rightarrow> string list \<Rightarrow> int \<Rightarrow> str_dict \<Rightarrow> string option \<Rightarrow>
     'n net \<Rightarrow> batch_result \<times> 'n net" where
  "process_batch rem self batch batch_idx phoenix_credentials query_template w =
     (case PhoenixBot_init phoenix_credentials batch_idx w of
        (bot0, w0) \<Rightarrow>
          case authenticate rem bot0 w0 of
            (ok, bot1, w1) \<Rightarrow>
              if \<not> ok then (\<lparr>br_results = [], br_failed = batch\<rparr>, cleanup bot1 w1)
              else
                case extract_batch_data rem bot1 batch query_template w1 of
                  (batch_results, w2) \<Rightarrow> (batch_results, cleanup bot1 w2))"

text \<open>The two dictionaries that \<^verbatim>\<open>extract_data\<close> can return.\<close>

record error_dict =
  e_status :: string
  e_message :: string
  e_results :: "extracted list"
  e_failed :: "string list"

record summary_dict =
  s_status :: string
  s_total_pris :: int
  s_successful :: int
  s_failed :: int
  s_results :: "extracted list"
  s_failed_pris :: "string list"

datatype extraction = ErrorDict error_dict | SummaryDict summary_dict

text \<open>
  The collection loop over \<^verbatim>\<open>as_completed(future_to_batch)\<close>.  As for the manager, the
  batches run one after the other in the order of completion.  \<^verbatim>\<open>_process_batch\<close> never
  raises, so \<^verbatim>\<open>future.result()\<close> always returns.
\<close>

fun gather ::
  "'n remote \<Rightarrow> BotConductor \<Rightarrow> str_dict \<Rightarrow> string option \<Rightarrow> (nat \<times> string list) list \<Rightarrow>
     extracted list \<Rightarrow> string list \<Rightarrow> 'n net \<Rightarrow> extracted list \<times> string list \<times> 'n net" where
  "gather rem self creds query_template [] all_rs failed_pris w = (all_rs, failed_pris, w)"
| "gather rem self creds query_template ((batch_idx, batch) # futures) all_rs failed_pris w =
     (case process_batch rem self batch (int batch_idx) creds query_template w of
        (batch_results, w1) \<Rightarrow>
          gather rem self creds query_template futures
            (all_rs @ br_results batch_results) (failed_pris @ br_failed batch_results) w1)"

definition extract_data ::
  "'n remote \<Rightarrow> nat list \<Rightarrow> BotConductor \<Rightarrow> string list \<Rightarrow> str_dict \<Rightarrow> string option \<Rightarrow>
     'n net \<Rightarrow> (py_error + extraction) \<times> 'n net" where
  "extract_data rem order self pri_list phoenix_credentials query_template w =
     (case divide_pris self pri_list of
        Inl err \<Rightarrow> (Inl err, w)
      | Inr batches \<Rightarrow>
          if batches = [] then
            (Inr (ErrorDict \<lparr>e_status = ''error'', e_message = ''No PRIs to process'',
                             e_results = [], e_failed = []\<rparr>), w)
          else if max_workers self \<le> 0 then (Inl ValueError, w)
          else
            case gather rem self phoenix_credentials query_template
                   (as_completed order (zip [0..<length batches] batches)) [] [] w of
              (all_rs, failed_pris, w1) \<Rightarrow>
                (Inr (SummaryDict
                   \<lparr>s_status = ''completed'',
                    s_total_pris = int (length pri_list),
                    s_successful = int (length all_rs),
                    s_failed = int (length failed_pris),
                    s_results = all_rs,
                    s_failed_pris = failed_pris\<rparr>), w1))"

section \<open>Notions used in the statements\<close>

text \<open>Where slice number \<open>i\<close> starts when the first \<open>r\<close> slices have one extra element.\<close>

definition slice_start :: "nat \<Rightarrow> nat \<Rightarrow> nat \<Rightarrow> nat" where
  "slice_start b r i = i * b + min i r"

text \<open>The events of the batch pipeline that are queries for one item.\<close>

fun is_query :: "net_event \<Rightarrow> bool" where
  "is_query (Queried b p) = True"
| "is_query _ = False"


text \<open>
  The events of a run that are calls of the processor, and those that are calls of
  \<^verbatim>\<open>time.sleep\<close>.
\<close>

fun is_invoke :: "'t event \<Rightarrow> bool" where
  "is_invoke (Invoke t) = True"
| "is_invoke (Sleep d) = False"

fun is_sleep :: "'t event \<Rightarrow> bool" where
  "is_sleep (Invoke t) = False"
| "is_sleep (Sleep d) = True"

text \<open>
  \<open>n\<close> attempts at a task with a pause of \<open>d\<close> between two consecutive ones: the events
  \<open>Invoke t, Sleep d, Invoke t, \<dots>, Invoke t\<close>.
\<close>

fun attempts_trace :: "'t \<Rightarrow> real \<Rightarrow> nat \<Rightarrow> 't event list" where
  "attempts_trace t d 0 = []"
| "attempts_trace t d (Suc 0) = [Invoke t]"
| "attempts_trace t d (Suc (Suc n)) = Invoke t # Sleep d # attempts_trace t d (Suc n)"

text \<open>
  The state of the processor after \<open>k\<close> calls on the task \<open>t\<close> that start in the state \<open>s\<close>,
  and the message of the exception raised by a call, if it raised one.
\<close>

fun state_after :: "('t, 'r, 'p) processor \<Rightarrow> 't \<Rightarrow> nat \<Rightarrow> 'p \<Rightarrow> 'p" where
  "state_after proc t 0 s = s"
| "state_after proc t (Suc k) s = state_after proc t k (snd (proc t s))"

fun raised_message :: "'r outcome \<Rightarrow> string option" where
  "raised_message (Raised e) = Some e"
| "raised_message (Returned r) = None"

text \<open>
  The workers that \<^verbatim>\<open>execute\<close> submits to the pool: those whose slice is not empty.
\<close>

definition spawned :: "'t list list \<Rightarrow> nat list" where
  "spawned batches = filter (\<lambda>i. batches ! i \<noteq> []) [0..<length batches]"

section \<open>Properties of the task partition\<close>

lemma slice_nat: "slice xs (int i) (int j) = take (j - i) (drop i xs)"
  by (cases "i \<le> length xs"; cases "j \<le> length xs")
     (auto simp: slice_def clamp_index_def Let_def min_def)

lemma slice_start_Suc:
  "slice_start b r (Suc i) = slice_start b r i + b + (if i < r then 1 else 0)"
  by (simp add: slice_start_def min_def)

lemma divide_loop_closed:
  "divide_loop tasks (int b) (int r) (map int [k..<n]) batches (int (slice_start b r k)) =
     batches @ map (\<lambda>i. slice tasks (int (slice_start b r i)) (int (slice_start b r (Suc i)))) [k..<n]"
proof (induction "n - k" arbitrary: k batches)
  case 0
  then show ?case by simp
next
  case (Suc d)
  then have kn: "k < n" and d: "d = n - Suc k" by auto
  have step: "int (slice_start b r k) + (int b + (if k < r then 1 else 0))
      = int (slice_start b r (Suc k))"
    by (simp add: slice_start_Suc)
  show ?case
    using Suc.hyps(1)[OF d, of "batches @ [slice tasks (int (slice_start b r k)) (int (slice_start b r (Suc k)))]"]
    by (simp add: upt_conv_Cons[OF kn] Let_def step del: upt_Suc)
qed

lemma concat_consecutive:
  "concat (map (\<lambda>i. take (f (Suc i) - f i) (drop (f i) xs)) [0..<n]) = take (f n - f 0) (drop (f 0) xs)"
  if "\<And>i. i < n \<Longrightarrow> f i \<le> f (Suc i)"
  using that
proof (induction n)
  case 0
  then show ?case by simp
next
  case (Suc n)
  have mono: "f 0 \<le> f n"
    using Suc.prems by (induction n) (auto intro: order_trans less_SucI)
  have "take (f n - f 0) (drop (f 0) xs) @ take (f (Suc n) - f n) (drop (f n) xs)
        = take (f (Suc n) - f 0) (drop (f 0) xs)"
  proof -
    have le: "f n \<le> f (Suc n)" using Suc.prems by simp
    have "take (f (Suc n) - f 0) (drop (f 0) xs)
        = take ((f n - f 0) + (f (Suc n) - f n)) (drop (f 0) xs)"
      using mono le by simp
    also have "\<dots> = take (f n - f 0) (drop (f 0) xs)
          @ take (f (Suc n) - f n) (drop (f n - f 0) (drop (f 0) xs))"
      by (simp only: take_add)
    also have "drop (f n - f 0) (drop (f 0) xs) = drop (f n) xs"
      using mono by simp
    finally show ?thesis by simp
  qed
  with Suc show ?case by simp
qed

lemma slice_start_mono: "slice_start b r i \<le> slice_start b r (Suc i)"
  by (simp add: slice_start_Suc)

lemma slice_start_le:
  assumes "i \<le> j"
  shows "slice_start b r i \<le> slice_start b r j"
proof -
  have "i * b \<le> j * b" using assms by (rule mult_le_mono1)
  moreover have "min i r \<le> min j r" using assms by simp
  ultimately show ?thesis unfolding slice_start_def by (rule add_mono)
qed

lemma slice_start_total:
  assumes "0 < w"
  shows "slice_start (n div w) (n mod w) w = n"
proof -
  have "n mod w < w" using assms by simp
  then have "min w (n mod w) = n mod w" by simp
  then show ?thesis by (simp add: slice_start_def)
qed

lemma divide_tasks_closed:
  assumes "0 < w"
  shows "divide_tasks (int w) tasks =
    Inr (map (\<lambda>i. take (slice_start (length tasks div w) (length tasks mod w) (Suc i)
                          - slice_start (length tasks div w) (length tasks mod w) i)
                     (drop (slice_start (length tasks div w) (length tasks mod w) i) tasks))
          [0..<w])"
proof (cases "tasks = []")
  case True
  then show ?thesis by (simp add: divide_tasks_def py_range_def)
next
  case False
  have s0: "int (slice_start (length tasks div w) (length tasks mod w) 0) = 0"
    by (simp add: slice_start_def)
  have "divide_loop tasks (int (length tasks div w)) (int (length tasks mod w))
          (map int [0..<w]) [] 0
        = map (\<lambda>i. slice tasks (int (slice_start (length tasks div w) (length tasks mod w) i))
                      (int (slice_start (length tasks div w) (length tasks mod w) (Suc i)))) [0..<w]"
    using divide_loop_closed[of tasks "length tasks div w" "length tasks mod w" 0 w "[]"]
    by (simp only: s0 append_Nil)
  then show ?thesis
    using False assms
    by (simp add: divide_tasks_def py_range_def Let_def slice_nat zdiv_int zmod_int)
qed

text \<open>
  C1 (partition correctness).  For a task list of any length \<open>N\<close> and a worker count
  \<open>W > 0\<close>, \<^verbatim>\<open>_divide_tasks\<close> returns normally, with exactly \<open>W\<close> slices; their
  concatenation, in order, is the task list; slice \<open>i\<close> is the contiguous segment of the
  task list that starts where slice \<open>i - 1\<close> ended (at position
  \<open>i * (N div W) + min i (N mod W)\<close>); and it has \<open>N div W + 1\<close> elements when
  \<open>i < N mod W\<close> and \<open>N div W\<close> elements otherwise.
\<close>

theorem divide_tasks_partition:
  assumes "0 < W"
  shows "\<exists>batches. divide_tasks W tasks = Inr batches
      \<and> int (length batches) = W
      \<and> concat batches = tasks
      \<and> (\<forall>i < length batches.
            batches ! i =
              take (length (batches ! i))
                (drop (i * (length tasks div nat W) + min i (length tasks mod nat W)) tasks)
          \<and> length (batches ! i) =
              length tasks div nat W + (if i < length tasks mod nat W then 1 else 0))"
proof -
  define w where "w = nat W"
  define b where "b = length tasks div w"
  define r where "r = length tasks mod w"
  have w: "0 < w" "W = int w" using assms by (simp_all add: w_def)
  let ?bs = "map (\<lambda>i. take (slice_start b r (Suc i) - slice_start b r i)
                     (drop (slice_start b r i) tasks)) [0..<w]"
  have eq: "divide_tasks W tasks = Inr ?bs"
    unfolding w(2) b_def r_def by (rule divide_tasks_closed[OF w(1)])
  have len: "int (length ?bs) = W" using w by simp
  have "concat ?bs = take (slice_start b r w - slice_start b r 0) (drop (slice_start b r 0) tasks)"
    by (rule concat_consecutive) (rule slice_start_mono)
  also have "slice_start b r w = length tasks"
    unfolding b_def r_def by (rule slice_start_total[OF w(1)])
  also have "slice_start b r 0 = 0" by (simp add: slice_start_def)
  finally have cat: "concat ?bs = tasks" by simp
  have elems: "?bs ! i = take (length (?bs ! i)) (drop (i * b + min i r) tasks)
      \<and> length (?bs ! i) = b + (if i < r then 1 else 0)" if "i < length ?bs" for i
  proof -
    have iw: "i < w" using that by simp
    have nth: "?bs ! i = take (slice_start b r (Suc i) - slice_start b r i)
                     (drop (slice_start b r i) tasks)"
      using iw by simp
    have "Suc i \<le> w" using iw by simp
    then have "slice_start b r (Suc i) \<le> slice_start b r w"
      by (rule slice_start_le)
    then have bound: "slice_start b r (Suc i) \<le> length tasks"
      unfolding b_def r_def by (simp add: slice_start_total[OF w(1)])
    have l: "length (?bs ! i) = b + (if i < r then 1 else 0)"
      unfolding nth using bound by (simp add: slice_start_Suc)
    show ?thesis
      using l nth by (simp add: slice_start_def slice_start_Suc)
  qed
  show ?thesis
    unfolding eq using len cat elems
    unfolding b_def r_def w_def by blast
qed

theorem divide_tasks_partition_witness:
  "(0::int) < 4
   \<and> divide_tasks 4 [0, 1, 2, 3, 4, 5, 6, 7, 8, 9 :: int]
       = Inr [[0, 1, 2], [3, 4, 5], [6, 7], [8, 9]]
   \<and> divide_tasks 4 ([] :: int list) = Inr [[], [], [], []]"
proof -
  have h: "(0::int) < 4" by simp
  have a: "divide_tasks 4 [0, 1, 2, 3, 4, 5, 6, 7, 8, 9 :: int]
       = Inr [[0, 1, 2], [3, 4, 5], [6, 7], [8, 9]]"
    by code_simp
  have b: "divide_tasks 4 ([] :: int list) = Inr [[], [], [], []]"
    by code_simp
  from divide_tasks_partition[OF h, of "[0, 1, 2, 3, 4, 5, 6, 7, 8, 9 :: int]"] h a b
  show ?thesis by simp
qed

section \<open>Float arithmetic: the rounding error\<close>

text \<open>
  The integer nearest to \<open>y\<close> is within \<open>1/2\<close> of it; \<open>floor_log2\<close> is the floor of the
  binary logarithm; so the float nearest to \<open>x\<close> is within the relative error \<open>2\<^sup>-\<^sup>5\<^sup>3\<close> of
  \<open>x\<close>, or within \<open>2\<^sup>-\<^sup>1\<^sup>0\<^sup>7\<^sup>5\<close> of it among the subnormal numbers.
\<close>

lemma round_half_even_error: "\<bar>of_int (round_half_even y) - y\<bar> \<le> 1 / 2"
proof -
  have "of_int \<lfloor>y\<rfloor> \<le> y" "y < of_int \<lfloor>y\<rfloor> + 1" by linarith+
  then show ?thesis
    by (auto simp: round_half_even_def Let_def)
qed

lemma floor_log2_bounds:
  assumes "0 < x"
  shows "2 powi floor_log2 x \<le> x" and "x < 2 powi (floor_log2 x + 1)"
proof -
  obtain p q where pq: "quotient_of x = (p, q)" by (cases "quotient_of x")
  have q: "0 < q" using pq by (rule quotient_of_denom_pos)
  have x: "x = of_int p / of_int q" using pq by (rule quotient_of_div)
  have p: "0 < p" using assms q unfolding x by (simp add: zero_less_divide_iff)
  define a where "a = nat (bitlen p - 1)"
  define b where "b = nat (bitlen q - 1)"
  have "bitlen p \<noteq> 0" "bitlen q \<noteq> 0" using p q by (simp_all only: bitlen_eq_zero_iff)
  then have ge: "1 \<le> bitlen p" "1 \<le> bitlen q"
    using bitlen_nonneg[of p] bitlen_nonneg[of q] by linarith+
  have bp: "bitlen p = int a + 1" unfolding a_def using ge(1) by simp
  have bq: "bitlen q = int b + 1" unfolding b_def using ge(2) by simp
  have "nat (bitlen p) = Suc a" "nat (bitlen q) = Suc b" by (simp_all add: bp bq)
  then have pb: "2 ^ a \<le> p" "p < 2 ^ Suc a" and qb: "2 ^ b \<le> q" "q < 2 ^ Suc b"
    using bitlen_bounds[OF p] bitlen_bounds[OF q] by (simp_all only: a_def[symmetric] b_def[symmetric])
  have pr: "(2::rat) ^ a \<le> of_int p" "(of_int p :: rat) < 2 ^ Suc a"
    using pb by (metis of_int_le_iff of_int_numeral of_int_power, metis of_int_less_iff of_int_numeral of_int_power)
  have qr: "(2::rat) ^ b \<le> of_int q" "(of_int q :: rat) < 2 ^ Suc b"
    using qb by (metis of_int_le_iff of_int_numeral of_int_power, metis of_int_less_iff of_int_numeral of_int_power)
  have k: "bitlen p - bitlen q = int a - int b" by (simp add: bp bq)
  have lo: "(2::rat) powi (int a - int b - 1) \<le> x"
  proof -
    have "(2::rat) powi (int a - int b - 1) = 2 ^ a / 2 ^ Suc b"
      by (simp add: power_int_diff)
    also have "\<dots> \<le> of_int p / 2 ^ Suc b" using pr(1) by (simp add: divide_right_mono)
    also have "\<dots> \<le> of_int p / of_int q" using qr(2) p q
      by (intro divide_left_mono) (simp_all)
    finally show ?thesis by (simp add: x)
  qed
  have hi: "x < (2::rat) powi (int a - int b + 1)"
  proof -
    have "x = of_int p / of_int q" by (rule x)
    also have "\<dots> < 2 ^ Suc a / of_int q" using pr(2) q by (simp add: divide_strict_right_mono)
    also have "\<dots> \<le> 2 ^ Suc a / 2 ^ b" using qr(1) q
      by (intro divide_left_mono) (simp_all)
    also have "\<dots> = (2::rat) powi (int a - int b + 1)"
      by (simp add: power_int_diff power_int_add)
    finally show ?thesis .
  qed
  show "2 powi floor_log2 x \<le> x"
    using lo by (simp add: floor_log2_def pq k Let_def)
  show "x < 2 powi (floor_log2 x + 1)"
    using hi by (auto simp add: floor_log2_def pq k Let_def)
qed

lemma binary64_error: "\<bar>binary64 x - x\<bar> \<le> \<bar>x\<bar> / 2 ^ 53 + 1 / 2 ^ 1075"
proof (cases "x = 0")
  case True
  then show ?thesis by (simp add: binary64_def)
next
  case False
  define e where "e = max (floor_log2 \<bar>x\<bar> - 52) (- 1074)"
  define u :: rat where "u = 2 powi e"
  have u: "0 < u" by (simp add: u_def)
  have b: "binary64 x = of_int (round_half_even (x / u)) * u"
    using False by (simp add: binary64_def e_def u_def Let_def)
  have "binary64 x - x = (of_int (round_half_even (x / u)) - x / u) * u"
    using u by (simp add: b algebra_simps)
  then have "\<bar>binary64 x - x\<bar> = \<bar>of_int (round_half_even (x / u)) - x / u\<bar> * u"
    using u by (simp add: abs_mult)
  also have "\<dots> \<le> 1 / 2 * u"
    using round_half_even_error[of "x / u"] u by (intro mult_right_mono) simp_all
  finally have err: "\<bar>binary64 x - x\<bar> \<le> u / 2" by simp
  have pos: "0 < \<bar>x\<bar>" using False by simp
  have "u / 2 \<le> \<bar>x\<bar> / 2 ^ 53 + 1 / 2 ^ 1075"
  proof (cases "- 1074 \<le> floor_log2 \<bar>x\<bar> - 52")
    case True
    then have "e = floor_log2 \<bar>x\<bar> - 52" by (simp add: e_def)
    then have "u = 2 powi floor_log2 \<bar>x\<bar> / 2 ^ 52"
      by (simp add: u_def power_int_diff)
    also have "\<dots> \<le> \<bar>x\<bar> / 2 ^ 52"
      using floor_log2_bounds(1)[OF pos] by (intro divide_right_mono) simp_all
    finally have "u / 2 \<le> \<bar>x\<bar> / 2 ^ 53" by simp
    then show ?thesis by (rule order_trans) simp
  next
    case False
    then have "e = - 1074" by (simp add: e_def)
    then have "u = 1 / 2 ^ 1074" by (simp add: u_def power_int_minus_divide)
    then have "u / 2 = 1 / 2 ^ 1075" by simp
    then show ?thesis by simp
  qed
  with err show ?thesis by (rule order_trans)
qed

lemma success_rate_error:
  assumes "0 \<le> s" "s \<le> n" "0 < n"
  shows "\<bar>float_mul (int_truediv s n) 100 - of_int s / of_int n * 100\<bar> \<le> 1 / 2 ^ 44"
proof -
  define x :: rat where "x = of_int s / of_int n"
  define q where "q = binary64 x"
  define r where "r = binary64 (q * 100)"
  define d :: rat where "d = 1 / 2 ^ 53"
  define t :: rat where "t = 1 / 2 ^ 1075"
  have d: "0 < d" by (simp add: d_def)
  have "(2::rat) ^ 53 \<le> 2 ^ 1075" by (rule power_increasing) simp_all
  then have td: "t \<le> d" "0 < t" unfolding t_def d_def by (simp_all add: frac_le)
  have x: "0 \<le> x" "x \<le> 1" using assms by (simp_all add: x_def)
  have "\<bar>q - x\<bar> \<le> \<bar>x\<bar> / 2 ^ 53 + 1 / 2 ^ 1075" unfolding q_def by (rule binary64_error)
  then have e1: "\<bar>q - x\<bar> \<le> \<bar>x\<bar> * d + t" by (simp add: d_def t_def)
  have "\<bar>x\<bar> * d \<le> 1 * d" using x d by (intro mult_right_mono) simp_all
  then have e1': "\<bar>q - x\<bar> \<le> 2 * d" using e1 td by linarith
  have "d \<le> 1 / 2" by (simp add: d_def)
  then have q: "\<bar>q\<bar> \<le> 2" using e1' x by linarith
  have "\<bar>r - q * 100\<bar> \<le> \<bar>q * 100\<bar> / 2 ^ 53 + 1 / 2 ^ 1075" unfolding r_def by (rule binary64_error)
  then have e2: "\<bar>r - q * 100\<bar> \<le> \<bar>q\<bar> * 100 * d + t" by (simp add: d_def t_def abs_mult)
  have "\<bar>q\<bar> * (100 * d) \<le> 2 * (100 * d)" using q d by (intro mult_right_mono) simp_all
  then have e2': "\<bar>r - q * 100\<bar> \<le> 201 * d" using e2 td by linarith
  have "q * 100 - x * 100 = (q - x) * 100" by (simp add: algebra_simps)
  then have "\<bar>q * 100 - x * 100\<bar> = \<bar>q - x\<bar> * 100" by (simp only: abs_mult)
  moreover have "\<bar>r - x * 100\<bar> \<le> \<bar>r - q * 100\<bar> + \<bar>q * 100 - x * 100\<bar>" by linarith
  ultimately have "\<bar>r - x * 100\<bar> \<le> \<bar>r - q * 100\<bar> + \<bar>q - x\<bar> * 100" by simp
  then have "\<bar>r - x * 100\<bar> \<le> 401 * d" using e1' e2' by linarith
  also have "401 * d \<le> 512 * d" using d by simp
  also have "512 * d = 1 / 2 ^ 44" by (simp add: d_def)
  finally show ?thesis by (simp add: r_def q_def x_def float_mul_def int_truediv_def)
qed

lemma success_rate_11_of_20: "float_mul (int_truediv 11 20) 100 = 55 + 1 / 2 ^ 47"
  by code_simp

section \<open>A worker with no retries allowed\<close>

text \<open>
  C2.  The claim is that a worker constructed with \<^verbatim>\<open>max_retries = 0\<close> still makes the
  initial attempt.  The code does not: the retry loop ranges over
  \<^verbatim>\<open>range(self.max_retries)\<close>, which is empty, so \<^verbatim>\<open>_process_single_task\<close> goes straight
  to the code after the loop.  For every bot, task and world, with \<^verbatim>\<open>max_retries\<close> set to
  \<open>0\<close> the call returns a failed result whose error is \<^verbatim>\<open>None\<close>, counts the task as
  failed, and leaves the world as it was: the processor is never invoked.
\<close>

theorem process_single_task_zero_retries:
  "process_single_task (self\<lparr>max_retries := 0\<rparr>) t w =
     (Inr \<lparr>tr_bot_id = bot_id self, task = t, success = False, result = None, error = None\<rparr>,
      self\<lparr>max_retries := 0,
           progress := (progress self)
             \<lparr>current_task := Some t,
              tasks_failed := tasks_failed (progress self) + 1,
              error_message := None\<rparr>\<rparr>,
      w)"
  by (simp add: process_single_task_def py_range_def)

section \<open>Empty input\<close>

text \<open>
  C5 (zero-task input).  For every manager, \<^verbatim>\<open>execute([])\<close> returns a report with
  \<^verbatim>\<open>total_tasks\<close>, \<^verbatim>\<open>successful\<close>, \<^verbatim>\<open>failed\<close> and \<^verbatim>\<open>success_rate\<close> all zero and no results;
  the manager and the world are unchanged, so no worker is created or run and the
  processor is not invoked.  For every list \<open>rs\<close> of results, the compiled report has
  \<^verbatim>\<open>total_tasks\<close> the number of results, \<^verbatim>\<open>successful\<close> the number of those with
  \<^verbatim>\<open>success\<close> set, \<^verbatim>\<open>failed\<close> the number of the others, the two adding up to the total, and
  the results themselves; \<^verbatim>\<open>success_rate\<close> is \<open>0\<close> when there are no results, and otherwise it
  is the float that Python computes for \<^verbatim>\<open>successful / total * 100\<close>, which differs from
  the exact value of that quotient by at most \<open>2\<^sup>-\<^sup>4\<^sup>4\<close>.
\<close>

theorem execute_empty_report:
  "(\<exists>rep. execute py order m [] w = (Inr rep, m, w)
      \<and> total_tasks rep = 0 \<and> successful rep = 0 \<and> failed rep = 0 \<and> success_rate rep = 0
      \<and> report_results rep = [])
   \<and> total_tasks (compile_results py m rs) = int (length rs)
   \<and> successful (compile_results py m rs) = int (length (filter success rs))
   \<and> failed (compile_results py m rs) = int (length (filter (\<lambda>r. \<not> success r) rs))
   \<and> successful (compile_results py m rs) + failed (compile_results py m rs)
       = total_tasks (compile_results py m rs)
   \<and> report_results (compile_results py m rs) = rs
   \<and> (if rs = [] then success_rate (compile_results py m rs) = 0
       else success_rate (compile_results py m rs)
              = float_mul (int_truediv (int (length (filter success rs))) (int (length rs))) 100
          \<and> \<bar>success_rate (compile_results py m rs)
               - of_int (successful (compile_results py m rs))
                 / of_int (total_tasks (compile_results py m rs)) * 100\<bar> \<le> 1 / 2 ^ 44)"
proof -
  have a: "\<exists>rep. execute py order m [] w = (Inr rep, m, w)
      \<and> total_tasks rep = 0 \<and> successful rep = 0 \<and> failed rep = 0 \<and> success_rate rep = 0
      \<and> report_results rep = []"
    by (simp add: execute_def compile_results_def Let_def)
  have b: "successful (compile_results py m rs) + failed (compile_results py m rs)
       = total_tasks (compile_results py m rs)"
    using sum_length_filter_compl[of success rs] by (simp add: compile_results_def Let_def)
  have c: "\<bar>float_mul (int_truediv (int (length (filter success rs))) (int (length rs))) 100
        - of_int (int (length (filter success rs))) / of_int (int (length rs)) * 100\<bar>
        \<le> 1 / 2 ^ 44" if "rs \<noteq> []"
    by (rule success_rate_error) (use that in simp_all)
  show ?thesis
    using a b c by (simp add: compile_results_def Let_def)
qed

text \<open>
  C10.  For every conductor, \<^verbatim>\<open>extract_data([], credentials)\<close> returns the dictionary
  with status \<^verbatim>\<open>'error'\<close>, message \<^verbatim>\<open>'No PRIs to process'\<close> and empty \<^verbatim>\<open>results\<close> and
  \<^verbatim>\<open>failed\<close> lists; the network log is unchanged, so no bot is created.
\<close>

theorem extract_data_empty:
  "extract_data rem order self [] phoenix_credentials query_template w =
     (Inr (ErrorDict \<lparr>e_status = ''error'', e_message = ''No PRIs to process'',
                      e_results = [], e_failed = []\<rparr>),
      w)"
  by (simp add: extract_data_def divide_pris_def)

section \<open>Authentication failure of a batch\<close>

lemma get_cookie_no_query:
  "filter is_query (net_log (snd (get_cookie rem session creds w))) = filter is_query (net_log w)"
  by (simp add: get_cookie_def Let_def split: prod.splits http_result.splits)

lemma authenticate_no_query:
  assumes "authenticate rem b w = (ok, b1, w1)"
  shows "filter is_query (net_log w1) = filter is_query (net_log w)"
proof -
  obtain c w' where g: "get_cookie rem (session_cookies b) (credentials b) w = (c, w')"
    by (cases "get_cookie rem (session_cookies b) (credentials b) w")
  have "w1 = w'"
    using assms g by (auto simp: authenticate_def Let_def split: option.splits if_splits)
  moreover have "filter is_query (net_log w') = filter is_query (net_log w)"
    using get_cookie_no_query[of rem "session_cookies b" "credentials b" w] g by simp
  ultimately show ?thesis by simp
qed

text \<open>
  C8 (chunk-level authentication failure).  When \<^verbatim>\<open>authenticate()\<close> of the bot created
  for a batch returns \<^verbatim>\<open>False\<close>, \<^verbatim>\<open>_process_batch\<close> returns an empty list of results and
  the whole batch as failed, after \<^verbatim>\<open>cleanup\<close>; the queries in the network log are those
  that were there before the call, so no item of the batch was queried.
\<close>

theorem process_batch_auth_failure:
  assumes "PhoenixBot_init phoenix_credentials batch_idx w = (bot0, w0)"
    and "authenticate rem bot0 w0 = (False, bot1, w1)"
  shows "process_batch rem self batch batch_idx phoenix_credentials query_template w =
           (\<lparr>br_results = [], br_failed = batch\<rparr>, cleanup bot1 w1)
       \<and> filter is_query (net_log (cleanup bot1 w1)) = filter is_query (net_log w)"
proof -
  have "filter is_query (net_log w0) = filter is_query (net_log w)"
    using assms(1) by (auto simp: PhoenixBot_init_def)
  moreover have "filter is_query (net_log w1) = filter is_query (net_log w0)"
    using assms(2) by (rule authenticate_no_query)
  ultimately have "filter is_query (net_log (cleanup bot1 w1)) = filter is_query (net_log w)"
    by (simp add: cleanup_def)
  then show ?thesis
    using assms by (simp add: process_batch_def)
qed

theorem process_batch_auth_failure_witness:
  "process_batch
     \<lparr>post = (\<lambda>url body s. (Timeout, s)), get = (\<lambda>url params cookies s. (Timeout, s)),
      generate_session_id = (\<lambda>username s. ''0123456789abcdef'')\<rparr>
     (BotConductor_init 5 30) [''PRI001'', ''PRI002''] 0
     [(''username'', ''test''), (''password'', ''pass'')] None
     \<lparr>net_state = (), net_log = []\<rparr>
   = (\<lparr>br_results = [], br_failed = [''PRI001'', ''PRI002'']\<rparr>,
      \<lparr>net_state = (),
       net_log = [Created 0, Posted ''https://phoenix.example.com/auth/login'', Closed 0]\<rparr>)"
proof -
  let ?rem = "\<lparr>post = (\<lambda>url body s. (Timeout, s)), get = (\<lambda>url params cookies s. (Timeout, s)),
      generate_session_id = (\<lambda>username s. ''0123456789abcdef'')\<rparr> :: unit remote"
  let ?creds = "[(''username'', ''test''), (''password'', ''pass'')]"
  let ?w = "\<lparr>net_state = (), net_log = []\<rparr>"
  let ?created = "\<lparr>credentials = ?creds, batch_id = 0, session_cookies = [], authenticated = False,
       cookie = None\<rparr>"
  let ?wa = "\<lparr>net_state = (), net_log = [Created 0]\<rparr>"
  let ?wb = "\<lparr>net_state = (),
     net_log = [Created 0, Posted ''https://phoenix.example.com/auth/login'']\<rparr>"
  have a: "PhoenixBot_init ?creds 0 ?w = (?created, ?wa)"
    by (simp add: PhoenixBot_init_def)
  have b: "authenticate ?rem ?created ?wa = (False, ?created, ?wb)"
    by (simp add: authenticate_def get_cookie_def dict_get_def Let_def)
  show ?thesis
    using process_batch_auth_failure[OF a b, of "BotConductor_init 5 30"
        "[''PRI001'', ''PRI002'']" None]
    by (simp add: cleanup_def)
qed

section \<open>The batch partitioner \<^verbatim>\<open>divide_pris\<close>\<close>

lemma ceil_step:
  fixes d B :: nat
  assumes "0 < B" "0 < d"
  shows "(d + B - 1) div B = Suc ((d - B + B - 1) div B)"
proof (cases "B \<le> d")
  case True
  then have "d + B - 1 = (d - 1) + B" "d - B + B - 1 = d - 1" using assms by simp_all
  then show ?thesis using assms by (simp only: div_add_self2)
next
  case False
  then have a: "d - B + B - 1 = B - 1" using assms by simp
  have b: "(B - 1) div B = 0" using assms by simp
  have "B * 1 \<le> d + B - 1" "d + B - 1 < B * Suc 1" using False assms by simp_all
  then have "(d + B - 1) div B = 1" by (rule div_nat_eqI)
  then show ?thesis by (simp only: a b)
qed

lemma ceil_div:
  assumes "0 < B"
  shows "\<lceil>real L / real B\<rceil> = int ((L + B - 1) div B)"
proof -
  define q where "q = (L + B - 1) div B"
  have 1: "q * B \<le> L + B - 1" unfolding q_def by (rule div_times_less_eq_dividend)
  have 2: "L + B - 1 < q * B + B"
    unfolding q_def using assms dividend_less_div_times[of B "L + B - 1"] by simp
  have a: "L \<le> q * B" using 2 assms by simp
  have b: "q * B < L + B" using 1 assms by simp
  have "real L \<le> real (q * B)" using a by (simp only: of_nat_le_iff)
  then have le: "real L / real B \<le> real_of_int (int q)"
    using assms by (simp add: divide_le_eq)
  have "real (q * B) < real (L + B)" using b by (simp only: of_nat_less_iff)
  then have "(real q - 1) * real B < real L" by (simp add: algebra_simps)
  then have gt: "real_of_int (int q) - 1 < real L / real B"
    using assms by (simp add: less_divide_eq)
  show ?thesis unfolding q_def[symmetric] using gt le by (rule ceiling_unique)
qed

lemma upt_0_Suc: "[0..<Suc n] = 0 # map Suc [0..<n]"
  by (simp only: map_Suc_upt upt_conv_Cons[OF zero_less_Suc])

lemma range_up_closed:
  assumes "0 < B"
  shows "range_up (int i) (int L) (int B) = map (\<lambda>k. int (i + k * B)) [0..<(L - i + B - 1) div B]"
proof (induction "L - i" arbitrary: i rule: less_induct)
  case less
  show ?case
  proof (cases "i < L")
    case False
    then have "L - i + B - 1 < B" using assms by simp
    then have "(L - i + B - 1) div B = 0" by simp
    then show ?thesis using False by (subst range_up.simps) simp
  next
    case True
    have "L - (i + B) = L - i - B" by simp
    then have n: "(L - i + B - 1) div B = Suc ((L - (i + B) + B - 1) div B)"
      using ceil_step[of B "L - i"] True assms by simp
    have ih: "range_up (int (i + B)) (int L) (int B)
        = map (\<lambda>k. int (i + B + k * B)) [0..<(L - (i + B) + B - 1) div B]"
      using less[of "i + B"] True assms by simp
    have "range_up (int i) (int L) (int B) = int i # range_up (int (i + B)) (int L) (int B)"
      using True assms by (subst range_up.simps) simp
    also have "\<dots> = int i # map (\<lambda>k. int (i + B + k * B)) [0..<(L - (i + B) + B - 1) div B]"
      by (simp only: ih)
    also have "\<dots> = map (\<lambda>k. int (i + k * B)) [0..<Suc ((L - (i + B) + B - 1) div B)]"
      by (subst upt_0_Suc) (simp add: algebra_simps del: upt_Suc)
    finally show ?thesis by (simp only: n)
  qed
qed

lemma batch_loop_map:
  "batch_loop xs B is acc = acc @ map (\<lambda>i. slice xs i (i + B)) is"
  by (induction "is" arbitrary: acc) simp_all

lemma concat_chunks:
  "concat (map (\<lambda>k. take B (drop (k * B) xs)) [0..<n]) = take (n * B) xs"
proof (induction n)
  case 0
  show ?case by simp
next
  case (Suc n)
  have "take (n * B) xs @ take B (drop (n * B) xs) = take (n * B + B) xs"
    by (simp only: take_add)
  then show ?case using Suc by (simp add: add.commute)
qed

lemma divide_pris_closed:
  assumes "0 < B"
  shows "divide_pris \<lparr>max_workers = mw, batch_size = int B\<rparr> xs =
     Inr (map (\<lambda>k. take B (drop (k * B) xs)) [0..<(length xs + B - 1) div B])"
proof (cases "xs = []")
  case True
  have "(B - 1) div B = 0" using assms by simp
  then show ?thesis using True by (simp add: divide_pris_def)
next
  case False
  have r: "range_up 0 (int (length xs)) (int B)
      = map (\<lambda>k. int (k * B)) [0..<(length xs + B - 1) div B]"
    using range_up_closed[OF assms, of 0 "length xs"] by simp
  have s: "slice xs (int k * int B) (int k * int B + int B) = take B (drop (k * B) xs)" for k
    using slice_nat[of xs "k * B" "k * B + B"] by simp
  show ?thesis
    using False assms
    by (simp add: divide_pris_def py_range3_def r batch_loop_map s comp_def)
qed

lemma chunk_count_bounds:
  fixes L B :: nat
  assumes "0 < B"
  shows "L \<le> ((L + B - 1) div B) * B" and "((L + B - 1) div B) * B < L + B"
proof -
  define q where "q = (L + B - 1) div B"
  have 1: "q * B \<le> L + B - 1" unfolding q_def by (rule div_times_less_eq_dividend)
  have 2: "L + B - 1 < q * B + B"
    unfolding q_def using assms dividend_less_div_times[of B "L + B - 1"] by simp
  show "L \<le> q * B" using 2 assms by simp
  show "q * B < L + B" using 1 assms by simp
qed

lemma chunk_start_bounds:
  fixes L B i :: nat
  assumes "0 < B" and "i < (L + B - 1) div B"
  shows "i * B < L" and "Suc i < (L + B - 1) div B \<Longrightarrow> i * B + B \<le> L"
proof -
  define q where "q = (L + B - 1) div B"
  have ub: "q * B < L + B" unfolding q_def by (rule chunk_count_bounds(2)[OF assms(1)])
  have "Suc i \<le> q" using assms(2) by (simp add: q_def)
  then have "Suc i * B \<le> q * B" by (rule mult_le_mono1)
  then have "i * B + B < L + B" using ub by simp
  then show "i * B < L" by simp
  show "i * B + B \<le> L" if "Suc i < (L + B - 1) div B"
  proof -
    have "Suc (Suc i) \<le> q" using that by (simp add: q_def)
    then have "Suc (Suc i) * B \<le> q * B" by (rule mult_le_mono1)
    then have "i * B + B + B < L + B" using ub by simp
    then show ?thesis by simp
  qed
qed

text \<open>
  C7 (batch partitioner).  For a conductor whose \<^verbatim>\<open>batch_size\<close> \<open>B\<close> is positive and a list of
  \<open>L\<close> items, \<^verbatim>\<open>divide_pris\<close> returns normally; the chunks, concatenated in order, give the
  list back; there are \<open>\<lceil>L / B\<rceil>\<close> of them; chunk \<open>i\<close> is the segment of at most \<open>B\<close> items that
  starts at position \<open>i * B\<close>; no chunk is empty and none is longer than \<open>B\<close>; every chunk
  but the last has exactly \<open>B\<close> items; and the empty list gives no chunk at all.
\<close>

theorem divide_pris_chunks:
  assumes "0 < batch_size self"
  shows "\<exists>batches. divide_pris self pri_list = Inr batches
      \<and> concat batches = pri_list
      \<and> int (length batches) = \<lceil>real (length pri_list) / real_of_int (batch_size self)\<rceil>
      \<and> (\<forall>i < length batches.
            batches ! i =
              take (nat (batch_size self)) (drop (i * nat (batch_size self)) pri_list)
          \<and> batches ! i \<noteq> []
          \<and> int (length (batches ! i)) \<le> batch_size self
          \<and> (Suc i < length batches \<longrightarrow> int (length (batches ! i)) = batch_size self))
      \<and> (pri_list = [] \<longrightarrow> batches = [])"
proof -
  define B where "B = nat (batch_size self)"
  define L where "L = length pri_list"
  define n where "n = (L + B - 1) div B"
  have B: "0 < B" "batch_size self = int B" using assms by (simp_all add: B_def)
  have self: "self = \<lparr>max_workers = max_workers self, batch_size = int B\<rparr>"
    using B(2) by (cases self) simp
  let ?bs = "map (\<lambda>k. take B (drop (k * B) pri_list)) [0..<n]"
  have eq: "divide_pris self pri_list = Inr ?bs"
    unfolding n_def L_def by (subst self) (rule divide_pris_closed[OF B(1)])
  have "L \<le> n * B" unfolding n_def by (rule chunk_count_bounds(1)[OF B(1)])
  then have cat: "concat ?bs = pri_list"
    by (simp add: concat_chunks L_def)
  have cnt: "int (length ?bs) = \<lceil>real (length pri_list) / real_of_int (batch_size self)\<rceil>"
    unfolding B(2) n_def L_def using ceil_div[OF B(1), of "length pri_list"] by simp
  have elems: "?bs ! i = take (nat (batch_size self)) (drop (i * nat (batch_size self)) pri_list)
      \<and> ?bs ! i \<noteq> []
      \<and> int (length (?bs ! i)) \<le> batch_size self
      \<and> (Suc i < length ?bs \<longrightarrow> int (length (?bs ! i)) = batch_size self)"
    if "i < length ?bs" for i
  proof -
    have i: "i < (L + B - 1) div B" using that by (simp add: n_def)
    have nth: "?bs ! i = take B (drop (i * B) pri_list)" using that by simp
    have lt: "i * B < length pri_list"
      using chunk_start_bounds(1)[OF B(1) i] by (simp add: L_def)
    have full: "length (?bs ! i) = B" if "Suc i < length ?bs"
    proof -
      have "Suc i < (L + B - 1) div B" using that by (simp add: n_def)
      then have "i * B + B \<le> length pri_list"
        using chunk_start_bounds(2)[OF B(1) i] by (simp add: L_def)
      then show ?thesis unfolding nth by simp
    qed
    have ne: "?bs ! i \<noteq> []" unfolding nth using lt B(1) by simp
    have le: "int (length (?bs ! i)) \<le> batch_size self" unfolding nth B(2) by simp
    have nth': "?bs ! i = take (nat (batch_size self)) (drop (i * nat (batch_size self)) pri_list)"
      using nth by (simp only: B_def)
    have full': "Suc i < length ?bs \<longrightarrow> int (length (?bs ! i)) = batch_size self"
      using full B(2) by simp
    show ?thesis by (intro conjI nth' ne le full')
  qed
  have emp: "pri_list = [] \<longrightarrow> ?bs = []"
  proof
    assume "pri_list = []"
    then have "L = 0" by (simp only: L_def list.size)
    then have "n = 0" unfolding n_def using B(1) by simp
    then show "?bs = []" by simp
  qed
  show ?thesis
    unfolding eq using cat cnt elems emp by blast
qed

theorem divide_pris_chunks_witness:
  "0 < batch_size (BotConductor_init 5 2)
   \<and> divide_pris (BotConductor_init 5 2) [''A'', ''B'', ''C'', ''D'', ''E'']
       = Inr [[''A'', ''B''], [''C'', ''D''], [''E'']]
   \<and> divide_pris (BotConductor_init 5 2) [] = Inr []"
proof -
  have h: "0 < batch_size (BotConductor_init 5 2)" by (simp add: BotConductor_init_def)
  have a: "divide_pris (BotConductor_init 5 2) [''A'', ''B'', ''C'', ''D'', ''E'']
       = Inr [[''A'', ''B''], [''C'', ''D''], [''E'']]"
    by code_simp
  have b: "divide_pris (BotConductor_init 5 2) [] = Inr []"
    by code_simp
  from divide_pris_chunks[OF h, of "[''A'', ''B'', ''C'', ''D'', ''E'']"] h a b
  show ?thesis by simp
qed

section \<open>Retries of a task that always fails\<close>

lemma attempts_trace_Suc:
  "attempts_trace t d (Suc n) = Invoke t # (if n = 0 then [] else Sleep d # attempts_trace t d n)"
  by (cases n) simp_all

lemma retry_loop_always_failing:
  assumes fails: "\<forall>s. \<exists>e. fst (task_processor self t s) = Raised e"
    and delay: "0 \<le> retry_delay self"
    and n: "max_retries self = int n"
  shows "k \<le> n \<Longrightarrow> retry_loop self t (map int [k..<n]) last_error w =
     (let err = (if k = n then last_error
                 else raised_message (fst (task_processor self t
                        (state_after (task_processor self) t (n - k - 1) (proc_state w)))))
      in (Inr \<lparr>tr_bot_id = bot_id self, task = t, success = False, result = None, error = err\<rparr>,
          self\<lparr>progress := (progress self)
                 \<lparr>tasks_failed := tasks_failed (progress self) + 1, error_message := err\<rparr>\<rparr>,
          w\<lparr>proc_state := state_after (task_processor self) t (n - k) (proc_state w),
            trace := trace w @ attempts_trace t (retry_delay self) (n - k)\<rparr>))"
proof (induction "n - k" arbitrary: k last_error w)
  case 0
  then have "k = n" by simp
  then show ?case by simp
next
  case (Suc m)
  then have kn: "k < n" and m: "m = n - Suc k" by simp_all
  have up: "[k..<n] = k # [Suc k..<n]" using kn by (rule upt_conv_Cons)
  obtain e where e: "fst (task_processor self t (proc_state w)) = Raised e"
    using fails by blast
  define s1 where "s1 = snd (task_processor self t (proc_state w))"
  define w1 where "w1 = w\<lparr>proc_state := s1, trace := trace w @ [Invoke t]\<rparr>"
  have inv: "invoke (task_processor self) t w = (Raised e, w1)"
    using e by (cases "task_processor self t (proc_state w)") (simp add: invoke_def w1_def s1_def)
  have nk: "n - k = Suc m" using Suc(2) by simp
  show ?case
  proof (cases "Suc k = n")
    case True
    then have m0: "m = 0" using m by simp
    have "\<not> int k < max_retries self - 1" using True n by simp
    then have "retry_loop self t (map int [k..<n]) last_error w
        = retry_loop self t (map int [Suc k..<n]) (Some e) w1"
      by (simp add: up inv)
    also have "\<dots> = retry_loop self t [] (Some e) w1" using True by simp
    finally show ?thesis
      using True kn e by (simp add: w1_def s1_def nk m0 Let_def)
  next
    case False
    then have lt: "Suc k < n" using kn by simp
    then have c: "int k < max_retries self - 1" using n by simp
    define w2 where "w2 = w1\<lparr>trace := trace w1 @ [Sleep (retry_delay self)]\<rparr>"
    have sl: "sleep (retry_delay self) w1 = Inr w2"
      using delay by (simp add: sleep_def w2_def)
    have step: "retry_loop self t (map int [k..<n]) last_error w
        = retry_loop self t (map int [Suc k..<n]) (Some e) w2"
      using c by (simp add: up inv sl)
    have ih: "retry_loop self t (map int [Suc k..<n]) (Some e) w2 =
     (let err = (if Suc k = n then Some e
                 else raised_message (fst (task_processor self t
                        (state_after (task_processor self) t (n - Suc k - 1) (proc_state w2)))))
      in (Inr \<lparr>tr_bot_id = bot_id self, task = t, success = False, result = None, error = err\<rparr>,
          self\<lparr>progress := (progress self)
                 \<lparr>tasks_failed := tasks_failed (progress self) + 1, error_message := err\<rparr>\<rparr>,
          w2\<lparr>proc_state := state_after (task_processor self) t (n - Suc k) (proc_state w2),
            trace := trace w2 @ attempts_trace t (retry_delay self) (n - Suc k)\<rparr>))"
      using lt by (intro Suc(1)) (simp_all add: m)
    obtain j where j: "n - Suc k = Suc j" using lt by (cases "n - Suc k") simp_all
    then have nk2: "n - k = Suc (Suc j)" using lt by simp
    have ps: "proc_state w2 = s1" by (simp add: w2_def w1_def)
    show ?thesis
      unfolding step ih using False kn
      by (simp add: Let_def nk2 j ps w2_def w1_def s1_def)
  qed
qed

lemma attempts_trace_invokes:
  "length (filter is_invoke (attempts_trace t d n)) = n"
  by (induction t d n rule: attempts_trace.induct) simp_all

lemma attempts_trace_sleeps:
  "length (filter is_sleep (attempts_trace t d n)) = n - 1"
  by (induction t d n rule: attempts_trace.induct) simp_all

text \<open>
  C3 (retry count).  Take a bot whose \<^verbatim>\<open>max_retries\<close> and \<^verbatim>\<open>retry_delay\<close> are not negative,
  and a task on which the processor raises an exception at every call, whatever its
  state.  Then \<^verbatim>\<open>_process_single_task\<close> returns normally, and what it does is exactly this
  sequence: a call of the processor, a sleep of \<^verbatim>\<open>retry_delay\<close>, a call, \<open>\<dots>\<close>, a call, with
  \<^verbatim>\<open>max_retries\<close> calls and a sleep between two consecutive calls only, so
  \<^verbatim>\<open>max_retries - 1\<close> sleeps when \<^verbatim>\<open>max_retries\<close> is at least \<open>1\<close> and none otherwise.  The result
  has \<^verbatim>\<open>success = False\<close> and no value, and its error is the message of the exception raised
  by the last call (\<^verbatim>\<open>None\<close> when \<^verbatim>\<open>max_retries\<close> is \<open>0\<close> and no call was made); the task is
  counted in \<^verbatim>\<open>tasks_failed\<close> and the same message is stored in the progress record.  With
  a negative \<^verbatim>\<open>retry_delay\<close> the first \<^verbatim>\<open>time.sleep\<close> raises \<^verbatim>\<open>ValueError\<close> instead, which is
  why the delay is assumed not to be negative.
\<close>

theorem retry_count_always_failing:
  assumes "\<forall>s. \<exists>e. fst (task_processor self t s) = Raised e"
    and "0 \<le> max_retries self"
    and "0 \<le> retry_delay self"
  shows "\<exists>r self' w'.
      process_single_task self t w = (Inr r, self', w')
    \<and> trace w' = trace w @ attempts_trace t (retry_delay self) (nat (max_retries self))
    \<and> int (length (filter is_invoke (trace w')))
        = int (length (filter is_invoke (trace w))) + max_retries self
    \<and> int (length (filter is_sleep (trace w')))
        = int (length (filter is_sleep (trace w))) + max (max_retries self - 1) 0
    \<and> proc_state w' = state_after (task_processor self) t (nat (max_retries self)) (proc_state w)
    \<and> r = \<lparr>tr_bot_id = bot_id self, task = t, success = False, result = None,
            error = (if max_retries self = 0 then None
                     else raised_message (fst (task_processor self t
                            (state_after (task_processor self) t (nat (max_retries self) - 1)
                               (proc_state w)))))\<rparr>
    \<and> tasks_failed (progress self') = tasks_failed (progress self) + 1
    \<and> tasks_completed (progress self') = tasks_completed (progress self)
    \<and> error_message (progress self') = error r"
proof -
  define n where "n = nat (max_retries self)"
  define self0 where "self0 = self\<lparr>progress := (progress self)\<lparr>current_task := Some t\<rparr>\<rparr>"
  have n: "max_retries self0 = int n" using assms(2) by (simp add: n_def self0_def)
  have f: "\<forall>s. \<exists>e. fst (task_processor self0 t s) = Raised e"
    using assms(1) by (simp add: self0_def)
  have d: "0 \<le> retry_delay self0" using assms(3) by (simp add: self0_def)
  have "process_single_task self t w = retry_loop self0 t (map int [0..<n]) None w"
    by (simp add: process_single_task_def py_range_def n_def self0_def)
  also note retry_loop_always_failing[OF f d n, of 0 None w]
  finally have eq: "process_single_task self t w =
     (let err = (if 0 = n then None
                 else raised_message (fst (task_processor self0 t
                        (state_after (task_processor self0) t (n - 0 - 1) (proc_state w)))))
      in (Inr \<lparr>tr_bot_id = bot_id self0, task = t, success = False, result = None, error = err\<rparr>,
          self0\<lparr>progress := (progress self0)
                 \<lparr>tasks_failed := tasks_failed (progress self0) + 1, error_message := err\<rparr>\<rparr>,
          w\<lparr>proc_state := state_after (task_processor self0) t (n - 0) (proc_state w),
            trace := trace w @ attempts_trace t (retry_delay self0) (n - 0)\<rparr>))"
    by simp
  have m: "max_retries self = int n" using assms(2) by (simp add: n_def)
  have s: "int (n - Suc 0) = max (int n - 1) 0" by (cases n) simp_all
  show ?thesis
    unfolding eq n_def[symmetric] m
    by (simp add: Let_def self0_def attempts_trace_invokes attempts_trace_sleeps s)
qed

theorem retry_count_always_failing_witness:
  "(let self = Bot_init 7 (\<lambda>t s. (Raised (''error '' @ replicate s CHR ''!'') :: nat outcome, Suc s)) 3 2;
        out = process_single_task self ''job'' \<lparr>proc_state = 0, trace = []\<rparr>
    in fst out = Inr \<lparr>tr_bot_id = 7, task = ''job'', success = False, result = None,
                        error = Some ''error !!''\<rparr>
     \<and> trace (snd (snd out)) = [Invoke ''job'', Sleep 2, Invoke ''job'', Sleep 2, Invoke ''job'']
     \<and> proc_state (snd (snd out)) = 3
     \<and> tasks_failed (progress (fst (snd out))) = 1)"
proof -
  let ?proc = "\<lambda>(t::string) s. (Raised (''error '' @ replicate s CHR ''!'') :: nat outcome, Suc s)"
  let ?self = "Bot_init 7 ?proc 3 2"
  let ?w = "\<lparr>proc_state = 0::nat, trace = [] :: string event list\<rparr>"
  have a: "\<forall>s. \<exists>e. fst (task_processor ?self ''job'' s) = Raised e"
    by (simp add: Bot_init_def)
  have b: "0 \<le> max_retries ?self" by (simp add: Bot_init_def)
  have c: "0 \<le> retry_delay ?self" by (simp add: Bot_init_def)
  from retry_count_always_failing[OF a b c, of ?w]
  show ?thesis
    by (auto simp add: Let_def Bot_init_def BotProgress_init_def numeral_3_eq_3 numeral_2_eq_2)
qed

section \<open>A run of \<^verbatim>\<open>execute\<close>\<close>

text \<open>
  With a retry delay that is not negative a worker returns normally from every task and
  from every batch, with one result for each task in order.  \<^verbatim>\<open>as_completed\<close> permutes the
  futures, and the collecting loop updates each worker that was submitted and leaves the
  others alone.  Together these describe the manager after a run of \<^verbatim>\<open>execute\<close> on a list
  of tasks that is not empty.
\<close>

lemma retry_loop_ok:
  assumes "0 \<le> retry_delay self"
  shows "\<exists>r p' w1. retry_loop self t attempts last_error w = (Inr r, self\<lparr>progress := p'\<rparr>, w1)
      \<and> task r = t \<and> tr_bot_id r = bot_id self
      \<and> pr_bot_id p' = pr_bot_id (progress self)
      \<and> state p' = state (progress self)
      \<and> tasks_completed p' = tasks_completed (progress self) + (if success r then 1 else 0)
      \<and> tasks_failed p' = tasks_failed (progress self) + (if success r then 0 else 1)"
proof (induction attempts arbitrary: last_error w)
  case Nil
  show ?case
    by (intro exI[of _ "\<lparr>tr_bot_id = bot_id self, task = t, success = False, result = None,
             error = last_error\<rparr>"]
          exI[of _ "(progress self)\<lparr>tasks_failed := tasks_failed (progress self) + 1,
             error_message := last_error\<rparr>"] exI[of _ w]) simp
next
  case (Cons a attempts)
  obtain out w1 where inv: "invoke (task_processor self) t w = (out, w1)"
    by (cases "invoke (task_processor self) t w")
  show ?case
  proof (cases out)
    case (Returned v)
    then show ?thesis using inv
      by (intro exI[of _ "\<lparr>tr_bot_id = bot_id self, task = t, success = True, result = Some v,
               error = None\<rparr>"]
            exI[of _ "(progress self)\<lparr>tasks_completed := tasks_completed (progress self) + 1\<rparr>"]
            exI[of _ w1]) simp
  next
    case (Raised e)
    have sl: "sleep (retry_delay self) w1 = Inr (w1\<lparr>trace := trace w1 @ [Sleep (retry_delay self)]\<rparr>)"
      using assms by (simp add: sleep_def)
    show ?thesis
    proof (cases "a < max_retries self - 1")
      case True
      then have "retry_loop self t (a # attempts) last_error w
          = retry_loop self t attempts (Some e) (w1\<lparr>trace := trace w1 @ [Sleep (retry_delay self)]\<rparr>)"
        using inv Raised sl by simp
      then show ?thesis using Cons.IH by simp
    next
      case False
      then have "retry_loop self t (a # attempts) last_error w
          = retry_loop self t attempts (Some e) w1"
        using inv Raised by simp
      then show ?thesis using Cons.IH by simp
    qed
  qed
qed

lemma process_single_task_ok:
  assumes "0 \<le> retry_delay self"
  shows "\<exists>r p' w1. process_single_task self t w = (Inr r, self\<lparr>progress := p'\<rparr>, w1)
      \<and> task r = t \<and> tr_bot_id r = bot_id self
      \<and> pr_bot_id p' = pr_bot_id (progress self)
      \<and> state p' = state (progress self)
      \<and> tasks_completed p' = tasks_completed (progress self) + (if success r then 1 else 0)
      \<and> tasks_failed p' = tasks_failed (progress self) + (if success r then 0 else 1)"
proof -
  let ?self = "self\<lparr>progress := (progress self)\<lparr>current_task := Some t\<rparr>\<rparr>"
  have "0 \<le> retry_delay ?self" using assms by simp
  from retry_loop_ok[OF this, of t "py_range (max_retries self)" None w]
  show ?thesis by (simp add: process_single_task_def)
qed

lemma tasks_loop_ok:
  assumes "0 \<le> retry_delay self"
  shows "\<exists>rs p' w1. tasks_loop self ts w
         = (Inr (), self\<lparr>progress := p', results := results self @ rs\<rparr>, w1)
      \<and> map task rs = ts \<and> (\<forall>r \<in> set rs. tr_bot_id r = bot_id self)
      \<and> pr_bot_id p' = pr_bot_id (progress self)
      \<and> state p' = state (progress self)
      \<and> tasks_completed p' = tasks_completed (progress self) + int (length (filter success rs))
      \<and> tasks_failed p'
          = tasks_failed (progress self) + int (length (filter (\<lambda>r. \<not> success r) rs))"
  using assms
proof (induction ts arbitrary: self w)
  case Nil
  have "self = self\<lparr>progress := progress self, results := results self @ []\<rparr>" by simp
  then show ?case by (intro exI[of _ "[]"] exI[of _ "progress self"] exI[of _ w]) simp
next
  case (Cons t ts)
  obtain r p1 w1 where st: "process_single_task self t w = (Inr r, self\<lparr>progress := p1\<rparr>, w1)"
    and r: "task r = t" "tr_bot_id r = bot_id self"
    and p1: "pr_bot_id p1 = pr_bot_id (progress self)" "state p1 = state (progress self)"
      "tasks_completed p1 = tasks_completed (progress self) + (if success r then 1 else 0)"
      "tasks_failed p1 = tasks_failed (progress self) + (if success r then 0 else 1)"
    using process_single_task_ok[OF Cons.prems, of t w] by blast
  let ?b = "self\<lparr>progress := p1, results := results self @ [r]\<rparr>"
  have d: "0 \<le> retry_delay ?b" using Cons.prems by simp
  obtain rs p' w2 where lp: "tasks_loop ?b ts w1
         = (Inr (), ?b\<lparr>progress := p', results := results ?b @ rs\<rparr>, w2)"
    and rs: "map task rs = ts" "\<forall>r \<in> set rs. tr_bot_id r = bot_id ?b"
    and p': "pr_bot_id p' = pr_bot_id (progress ?b)" "state p' = state (progress ?b)"
      "tasks_completed p' = tasks_completed (progress ?b) + int (length (filter success rs))"
      "tasks_failed p'
          = tasks_failed (progress ?b) + int (length (filter (\<lambda>r. \<not> success r) rs))"
    using Cons.IH[OF d, of w1] by blast
  have eq: "tasks_loop self (t # ts) w
      = (Inr (), self\<lparr>progress := p', results := results self @ (r # rs)\<rparr>, w2)"
    using st lp by simp
  show ?case
    unfolding eq using r rs p1 p'
    by (intro exI[of _ "r # rs"] exI[of _ p'] exI[of _ w2]) simp
qed

lemma process_tasks_ok:
  assumes "0 \<le> retry_delay self"
  shows "\<exists>rs p' w1. process_tasks self ts w
         = (Inr (results self @ rs), self\<lparr>progress := p', results := results self @ rs\<rparr>, w1)
      \<and> map task rs = ts \<and> (\<forall>r \<in> set rs. tr_bot_id r = bot_id self)
      \<and> pr_bot_id p' = pr_bot_id (progress self)
      \<and> state p' = COMPLETED
      \<and> tasks_completed p' = tasks_completed (progress self) + int (length (filter success rs))
      \<and> tasks_failed p'
          = tasks_failed (progress self) + int (length (filter (\<lambda>r. \<not> success r) rs))"
proof -
  let ?b = "self\<lparr>progress := (progress self)\<lparr>state := ACTIVE\<rparr>\<rparr>"
  have d: "0 \<le> retry_delay ?b" using assms by simp
  obtain rs p' w1 where lp: "tasks_loop ?b ts w
         = (Inr (), ?b\<lparr>progress := p', results := results ?b @ rs\<rparr>, w1)"
    and rs: "map task rs = ts" "\<forall>r \<in> set rs. tr_bot_id r = bot_id ?b"
    and p': "pr_bot_id p' = pr_bot_id (progress ?b)"
      "tasks_completed p' = tasks_completed (progress ?b) + int (length (filter success rs))"
      "tasks_failed p'
          = tasks_failed (progress ?b) + int (length (filter (\<lambda>r. \<not> success r) rs))"
    using tasks_loop_ok[OF d, of ts w] by blast
  show ?thesis
    using lp rs p'
    by (intro exI[of _ rs] exI[of _ "p'\<lparr>state := COMPLETED, current_task := None\<rparr>"] exI[of _ w1])
       (simp add: process_tasks_def Let_def)
qed

lemma as_completed_mset: "mset (as_completed cs xs) = mset xs"
proof (induction cs xs rule: as_completed.induct)
  case (1 cs)
  show ?case by simp
next
  case (2 cs x xs)
  define k where "k = (case cs of [] \<Rightarrow> 0 | c # _ \<Rightarrow> c mod length (x # xs))"
  have k: "k < length (x # xs)" by (simp add: k_def split: list.splits)
  have ih: "mset (as_completed (tl cs) (take k (x # xs) @ drop (Suc k) (x # xs)))
      = mset (take k (x # xs) @ drop (Suc k) (x # xs))"
    using 2[of k] by (simp add: k_def)
  have "as_completed cs (x # xs)
      = (x # xs) ! k # as_completed (tl cs) (take k (x # xs) @ drop (Suc k) (x # xs))"
    by (simp only: as_completed.simps Let_def k_def)
  then have "mset (as_completed cs (x # xs))
      = mset (take k (x # xs) @ (x # xs) ! k # drop (Suc k) (x # xs))"
    using ih by simp
  also have "take k (x # xs) @ (x # xs) ! k # drop (Suc k) (x # xs) = x # xs"
    using k by (rule id_take_nth_drop[symmetric])
  finally show ?case .
qed

lemma collect_frame:
  "num_bots (fst (collect fs m w)) = num_bots m
   \<and> mgr_retry_delay (fst (collect fs m w)) = mgr_retry_delay m
   \<and> mgr_max_retries (fst (collect fs m w)) = mgr_max_retries m
   \<and> mgr_task_processor (fst (collect fs m w)) = mgr_task_processor m
   \<and> length (bots (fst (collect fs m w))) = length (bots m)"
proof (induction fs arbitrary: m w)
  case Nil
  show ?case by simp
next
  case (Cons f fs)
  obtain i b where f: "f = (i, b)" by (cases f)
  obtain res bot1 w1 where p: "process_tasks (bots m ! i) b w = (res, bot1, w1)"
    by (cases "process_tasks (bots m ! i) b w")
  show ?case
  proof (cases res)
    case (Inl err)
    then show ?thesis
      using Cons.IH[of "m\<lparr>bots := (bots m)[i := bot1]\<rparr>" w1] by (simp add: f p)
  next
    case (Inr rs)
    then show ?thesis
      using Cons.IH[of "m\<lparr>bots := (bots m)[i := bot1], all_results := all_results m @ rs\<rparr>" w1]
      by (simp add: f p)
  qed
qed

lemma collect_other:
  "i \<notin> fst ` set fs \<Longrightarrow> bots (fst (collect fs m w)) ! i = bots m ! i"
proof (induction fs arbitrary: m w)
  case Nil
  show ?case by simp
next
  case (Cons f fs)
  obtain j b where f: "f = (j, b)" by (cases f)
  have ij: "j \<noteq> i" and rest: "i \<notin> fst ` set fs" using Cons.prems by (auto simp: f)
  obtain res bot1 w1 where p: "process_tasks (bots m ! j) b w = (res, bot1, w1)"
    by (cases "process_tasks (bots m ! j) b w")
  show ?case
  proof (cases res)
    case (Inl err)
    then show ?thesis
      using Cons.IH[OF rest, of "m\<lparr>bots := (bots m)[j := bot1]\<rparr>" w1] ij by (simp add: f p)
  next
    case (Inr rs)
    then show ?thesis
      using Cons.IH[OF rest, of "m\<lparr>bots := (bots m)[j := bot1], all_results := all_results m @ rs\<rparr>" w1] ij
      by (simp add: f p)
  qed
qed

lemma collect_results:
  assumes "distinct (map fst fs)"
    and "\<forall>(i, b) \<in> set fs. i < length (bots m) \<and> 0 \<le> retry_delay (bots m ! i)
           \<and> results (bots m ! i) = []"
  shows "\<exists>new. all_results (fst (collect fs m w)) = all_results m @ new
      \<and> map task new = concat (map snd fs)"
  using assms
proof (induction fs arbitrary: m w)
  case Nil
  show ?case by simp
next
  case (Cons f fs)
  obtain i b where f: "f = (i, b)" by (cases f)
  have i: "i < length (bots m)" "0 \<le> retry_delay (bots m ! i)" "results (bots m ! i) = []"
    using Cons.prems(2) by (simp_all add: f)
  obtain rs p' w1 where p: "process_tasks (bots m ! i) b w
         = (Inr (results (bots m ! i) @ rs),
            (bots m ! i)\<lparr>progress := p', results := results (bots m ! i) @ rs\<rparr>, w1)"
    and rs: "map task rs = b"
    using process_tasks_ok[OF i(2), of b w] by blast
  define m1 where "m1 = m\<lparr>bots := (bots m)[i := (bots m ! i)\<lparr>progress := p', results := rs\<rparr>],
      all_results := all_results m @ rs\<rparr>"
  have step: "collect (f # fs) m w = collect fs m1 w1"
    using p by (simp add: f i(3) m1_def)
  have d: "distinct (map fst fs)" and ni: "i \<notin> fst ` set fs"
    using Cons.prems(1) by (simp_all add: f)
  have pre: "\<forall>(j, c) \<in> set fs. j < length (bots m1) \<and> 0 \<le> retry_delay (bots m1 ! j)
           \<and> results (bots m1 ! j) = []"
  proof (clarify)
    fix j c assume jc: "(j, c) \<in> set fs"
    then have "j \<noteq> i" using ni by force
    moreover have "j < length (bots m) \<and> 0 \<le> retry_delay (bots m ! j) \<and> results (bots m ! j) = []"
      using Cons.prems(2) jc by auto
    ultimately show "j < length (bots m1) \<and> 0 \<le> retry_delay (bots m1 ! j)
           \<and> results (bots m1 ! j) = []"
      by (simp add: m1_def)
  qed
  obtain new where new: "all_results (fst (collect fs m1 w1)) = all_results m1 @ new"
      "map task new = concat (map snd fs)"
    using Cons.IH[OF d pre, of w1] by blast
  show ?case
    unfolding step using new rs
    by (intro exI[of _ "rs @ new"]) (simp add: m1_def f)
qed

lemma collect_bot:
  assumes "distinct (map fst fs)" and "(i, b) \<in> set fs"
    and "i < length (bots m)" and "0 \<le> retry_delay (bots m ! i)"
  shows "\<exists>rs p'. bots (fst (collect fs m w)) ! i
          = (bots m ! i)\<lparr>progress := p', results := results (bots m ! i) @ rs\<rparr>
      \<and> map task rs = b \<and> (\<forall>r \<in> set rs. tr_bot_id r = bot_id (bots m ! i))
      \<and> pr_bot_id p' = pr_bot_id (progress (bots m ! i))
      \<and> state p' = COMPLETED
      \<and> tasks_completed p'
          = tasks_completed (progress (bots m ! i)) + int (length (filter success rs))
      \<and> tasks_failed p'
          = tasks_failed (progress (bots m ! i)) + int (length (filter (\<lambda>r. \<not> success r) rs))"
  using assms
proof (induction fs arbitrary: m w)
  case Nil
  then show ?case by simp
next
  case (Cons f fs)
  obtain j c where f: "f = (j, c)" by (cases f)
  have d: "distinct (map fst fs)" and nj: "j \<notin> fst ` set fs"
    using Cons.prems(1) by (simp_all add: f)
  obtain res bot1 w1 where p: "process_tasks (bots m ! j) c w = (res, bot1, w1)"
    by (cases "process_tasks (bots m ! j) c w")
  define m1 where "m1 = (case res of
      Inl err \<Rightarrow> m\<lparr>bots := (bots m)[j := bot1]\<rparr>
    | Inr rs \<Rightarrow> m\<lparr>bots := (bots m)[j := bot1], all_results := all_results m @ rs\<rparr>)"
  have step: "collect (f # fs) m w = collect fs m1 w1"
    by (cases res) (simp_all add: f p m1_def)
  have b1: "bots m1 = (bots m)[j := bot1]" by (cases res) (simp_all add: m1_def)
  show ?case
  proof (cases "j = i")
    case True
    then have "c = b" using Cons.prems(2) nj by (force simp: f)
    obtain rs p' w1' where p': "process_tasks (bots m ! i) b w
         = (Inr (results (bots m ! i) @ rs),
            (bots m ! i)\<lparr>progress := p', results := results (bots m ! i) @ rs\<rparr>, w1')"
      and rest: "map task rs = b" "\<forall>r \<in> set rs. tr_bot_id r = bot_id (bots m ! i)"
        "pr_bot_id p' = pr_bot_id (progress (bots m ! i))" "state p' = COMPLETED"
        "tasks_completed p'
          = tasks_completed (progress (bots m ! i)) + int (length (filter success rs))"
        "tasks_failed p'
          = tasks_failed (progress (bots m ! i)) + int (length (filter (\<lambda>r. \<not> success r) rs))"
      using process_tasks_ok[OF Cons.prems(4), of b w] by blast
    have "bot1 = (bots m ! i)\<lparr>progress := p', results := results (bots m ! i) @ rs\<rparr>"
      using p p' True \<open>c = b\<close> by simp
    moreover have "bots (fst (collect fs m1 w1)) ! i = bots m1 ! i"
      using nj True by (intro collect_other) simp
    ultimately have "bots (fst (collect (f # fs) m w)) ! i
        = (bots m ! i)\<lparr>progress := p', results := results (bots m ! i) @ rs\<rparr>"
      using Cons.prems(3) True by (simp add: step b1)
    then show ?thesis using rest by blast
  next
    case False
    then have mem: "(i, b) \<in> set fs" using Cons.prems(2) by (simp add: f)
    have same: "bots m1 ! i = bots m ! i" using False by (simp add: b1)
    have "i < length (bots m1)" "0 \<le> retry_delay (bots m1 ! i)"
      using Cons.prems(3,4) by (simp_all add: b1 same[unfolded b1])
    from Cons.IH[OF d mem this, of w1]
    show ?thesis unfolding step same .
  qed
qed

lemma divide_tasks_batches:
  assumes "0 < W"
  shows "\<exists>batches. divide_tasks W tasks = Inr batches \<and> length batches = nat W
      \<and> concat batches = tasks"
proof -
  define w where "w = nat W"
  define b where "b = length tasks div w"
  define r where "r = length tasks mod w"
  have w: "0 < w" "W = int w" using assms by (simp_all add: w_def)
  let ?bs = "map (\<lambda>i. take (slice_start b r (Suc i) - slice_start b r i)
                     (drop (slice_start b r i) tasks)) [0..<w]"
  have eq: "divide_tasks W tasks = Inr ?bs"
    unfolding w(2) b_def r_def by (rule divide_tasks_closed[OF w(1)])
  have "concat ?bs = take (slice_start b r w - slice_start b r 0) (drop (slice_start b r 0) tasks)"
    by (rule concat_consecutive) (rule slice_start_mono)
  also have "slice_start b r w = length tasks"
    unfolding b_def r_def by (rule slice_start_total[OF w(1)])
  also have "slice_start b r 0 = 0" by (simp add: slice_start_def)
  finally have cat: "concat ?bs = tasks" by simp
  have "length ?bs = nat W" by (simp add: w_def)
  then show ?thesis using eq cat by blast
qed

lemma map_snd_filter_zip:
  "length xs = length ys \<Longrightarrow>
     map snd (filter (\<lambda>(i, b). P b) (zip xs ys)) = filter P ys"
  by (induction xs ys rule: list_induct2) simp_all

lemma concat_filter_nonempty: "concat (filter (\<lambda>b. b \<noteq> []) bs) = concat bs"
  by (induction bs) simp_all

lemma mset_concat_map_cong:
  assumes "mset xs = mset ys"
  shows "mset (concat (map f xs)) = mset (concat (map f ys))"
proof -
  have "mset (concat (map f zs)) = sum_mset (image_mset (\<lambda>z. mset (f z)) (mset zs))" for zs
    by (induction zs) simp_all
  then show ?thesis using assms by simp
qed

lemma in_set_zip_upt:
  assumes "length ys = n"
  shows "(i, b) \<in> set (zip [0..<n] ys) \<longleftrightarrow> i < n \<and> b = ys ! i"
proof
  assume "(i, b) \<in> set (zip [0..<n] ys)"
  then obtain k where "[0..<n] ! k = i" "ys ! k = b" "k < length [0..<n]" "k < length ys"
    by (auto simp: in_set_zip)
  then show "i < n \<and> b = ys ! i" by simp
next
  assume a: "i < n \<and> b = ys ! i"
  then have "[0..<n] ! i = i" "ys ! i = b" "i < length [0..<n]" "i < length ys"
    using assms by simp_all
  then show "(i, b) \<in> set (zip [0..<n] ys)"
    unfolding in_set_zip by (intro exI[of _ i]) simp
qed

lemma execute_run:
  assumes "0 < num_bots m" and "0 \<le> mgr_retry_delay m" and "tasks \<noteq> []"
  shows "\<exists>batches new m' w'.
      divide_tasks (num_bots m) tasks = Inr batches
    \<and> length batches = nat (num_bots m) \<and> concat batches = tasks
    \<and> execute py order m tasks w = (Inr (compile_results py m' (all_results m')), m', w')
    \<and> all_results m' = all_results m @ new \<and> mset (map task new) = mset tasks
    \<and> num_bots m' = num_bots m \<and> mgr_retry_delay m' = mgr_retry_delay m
    \<and> mgr_max_retries m' = mgr_max_retries m \<and> mgr_task_processor m' = mgr_task_processor m
    \<and> length (bots m') = nat (num_bots m)
    \<and> (\<forall>i < nat (num_bots m).
          bot_id (bots m' ! i) = int i
        \<and> pr_bot_id (progress (bots m' ! i)) = int i
        \<and> map task (results (bots m' ! i)) = batches ! i
        \<and> (\<forall>r \<in> set (results (bots m' ! i)). tr_bot_id r = int i)
        \<and> tasks_completed (progress (bots m' ! i))
            = int (length (filter success (results (bots m' ! i))))
        \<and> tasks_failed (progress (bots m' ! i))
            = int (length (filter (\<lambda>r. \<not> success r) (results (bots m' ! i))))
        \<and> state (progress (bots m' ! i)) = (if batches ! i = [] then IDLE else COMPLETED)
        \<and> (batches ! i = [] \<longrightarrow>
             bots m' ! i = Bot_init (int i) (mgr_task_processor m) (mgr_max_retries m)
                             (mgr_retry_delay m)))"
proof -
  define n where "n = nat (num_bots m)"
  obtain batches where dv: "divide_tasks (num_bots m) tasks = Inr batches"
    and len: "length batches = n" and cat: "concat batches = tasks"
    using divide_tasks_batches[OF assms(1), of tasks] unfolding n_def by blast
  define mk where "mk = (\<lambda>i. Bot_init i (mgr_task_processor m) (mgr_max_retries m)
                                  (mgr_retry_delay m))"
  define m1 where "m1 = m\<lparr>bots := map mk (py_range (num_bots m))\<rparr>"
  define futs where "futs = filter (\<lambda>(i, batch). batch \<noteq> []) (zip [0..<length (bots m1)] batches)"
  define fs where "fs = as_completed order futs"
  define m2 where "m2 = fst (collect fs m1 w)"
  define w2 where "w2 = snd (collect fs m1 w)"
  have b1: "bots m1 = map (\<lambda>k. mk (int k)) [0..<n]"
    by (simp add: m1_def py_range_def n_def comp_def)
  have l1: "length (bots m1) = n" by (simp add: b1)
  have ex: "execute py order m tasks w = (Inr (compile_results py m2 (all_results m2)), m2, w2)"
    using assms(1,3)
    by (simp add: execute_def dv Let_def m1_def[symmetric] mk_def[symmetric]
          futs_def[symmetric] fs_def[symmetric] m2_def w2_def split_beta)
  have ms: "mset fs = mset futs" unfolding fs_def by (rule as_completed_mset)
  have st: "set fs = set futs" using ms by (rule mset_eq_setD)
  have "distinct (map fst (zip [0..<n] batches))" using len by simp
  then have "distinct (map fst futs)" unfolding futs_def l1 by (rule distinct_map_filter)
  moreover have "mset (map fst fs) = mset (map fst futs)" using ms by simp
  ultimately have dist: "distinct (map fst fs)" using mset_eq_imp_distinct_iff by blast
  have mem: "(i, b) \<in> set fs \<longleftrightarrow> i < n \<and> b = batches ! i \<and> b \<noteq> []" for i b
    unfolding st futs_def l1 using in_set_zip_upt[OF len, of i b] by auto
  have fresh: "i < n \<Longrightarrow> bots m1 ! i = mk (int i)" for i by (simp add: b1)
  have pre: "\<forall>(i, b) \<in> set fs. i < length (bots m1) \<and> 0 \<le> retry_delay (bots m1 ! i)
           \<and> results (bots m1 ! i) = []"
    using assms(2) by (auto simp: mem l1 fresh mk_def Bot_init_def)
  obtain new where new: "all_results m2 = all_results m1 @ new"
      "map task new = concat (map snd fs)"
    using collect_results[OF dist pre, of w] unfolding m2_def by blast
  have "mset (concat (map snd fs)) = mset (concat (map snd futs))"
    using ms by (rule mset_concat_map_cong)
  also have "map snd futs = filter (\<lambda>b. b \<noteq> []) batches"
    unfolding futs_def l1 using len by (intro map_snd_filter_zip) simp
  also have "concat (filter (\<lambda>b. b \<noteq> []) batches) = tasks"
    by (simp only: concat_filter_nonempty cat)
  finally have perm: "mset (map task new) = mset tasks"
    using new(2) by (metis mset_map)
  have fr: "num_bots m2 = num_bots m" "mgr_retry_delay m2 = mgr_retry_delay m"
    "mgr_max_retries m2 = mgr_max_retries m" "mgr_task_processor m2 = mgr_task_processor m"
    "length (bots m2) = n"
    using collect_frame[of fs m1 w] by (simp_all add: m2_def m1_def py_range_def n_def)
  have bot: "bot_id (bots m2 ! i) = int i
        \<and> pr_bot_id (progress (bots m2 ! i)) = int i
        \<and> map task (results (bots m2 ! i)) = batches ! i
        \<and> (\<forall>r \<in> set (results (bots m2 ! i)). tr_bot_id r = int i)
        \<and> tasks_completed (progress (bots m2 ! i))
            = int (length (filter success (results (bots m2 ! i))))
        \<and> tasks_failed (progress (bots m2 ! i))
            = int (length (filter (\<lambda>r. \<not> success r) (results (bots m2 ! i))))
        \<and> state (progress (bots m2 ! i)) = (if batches ! i = [] then IDLE else COMPLETED)
        \<and> (batches ! i = [] \<longrightarrow> bots m2 ! i = mk (int i))" if i: "i < n" for i
  proof (cases "batches ! i = []")
    case True
    then have "i \<notin> fst ` set fs" using mem by force
    then have "bots m2 ! i = bots m1 ! i" unfolding m2_def by (rule collect_other)
    then have "bots m2 ! i = mk (int i)" using fresh[OF i] by simp
    then show ?thesis using True by (simp add: mk_def Bot_init_def BotProgress_init_def)
  next
    case False
    then have in_fs: "(i, batches ! i) \<in> set fs" using mem i by simp
    have pi: "i < length (bots m1)" "0 \<le> retry_delay (bots m1 ! i)"
      using i assms(2) by (simp_all add: l1 fresh mk_def Bot_init_def)
    obtain rs p' where b: "bots m2 ! i
          = (bots m1 ! i)\<lparr>progress := p', results := results (bots m1 ! i) @ rs\<rparr>"
      and rest: "map task rs = batches ! i" "\<forall>r \<in> set rs. tr_bot_id r = bot_id (bots m1 ! i)"
        "pr_bot_id p' = pr_bot_id (progress (bots m1 ! i))" "state p' = COMPLETED"
        "tasks_completed p'
          = tasks_completed (progress (bots m1 ! i)) + int (length (filter success rs))"
        "tasks_failed p'
          = tasks_failed (progress (bots m1 ! i)) + int (length (filter (\<lambda>r. \<not> success r) rs))"
      using collect_bot[OF dist in_fs pi, of w] unfolding m2_def by blast
    show ?thesis
      using False rest
      by (simp add: b fresh[OF i] mk_def Bot_init_def BotProgress_init_def)
  qed
  have a1: "all_results m2 = all_results m @ new" using new(1) by (simp add: m1_def)
  show ?thesis
    using dv len cat ex a1 perm fr bot
    unfolding n_def[symmetric] mk_def by blast
qed

section \<open>Completion accounting\<close>

lemma sum_list_int_length: "(\<Sum>x\<leftarrow>xss. int (length x)) = int (length (concat xss))"
  by (induction xss) simp_all

text \<open>
  C4 (completion accounting).  Take a manager with a positive number of workers and a
  retry delay that is not negative, and any list of tasks.  One call of \<^verbatim>\<open>execute\<close> returns
  a report, and \<^verbatim>\<open>all_results\<close> is extended by new results whose tasks are the submitted
  tasks, each exactly as often as it was submitted.  For the empty list the manager and
  the world stay as they are.  Otherwise the report carries \<^verbatim>\<open>all_results\<close>; there is one
  worker for each slice of \<^verbatim>\<open>_divide_tasks\<close>; the results of worker \<open>i\<close> are for the tasks of
  slice \<open>i\<close>, in order; its \<^verbatim>\<open>tasks_completed\<close> and \<^verbatim>\<open>tasks_failed\<close> count its successful and
  its failed results, so their sum is the size of its slice; and the sum of the two
  counters over all workers is the number of submitted tasks.  The order in which the
  workers finish is arbitrary.  With a negative retry delay a worker that has to retry
  dies in \<^verbatim>\<open>time.sleep\<close> and its results are dropped, which is why the delay is assumed not
  to be negative.
\<close>

theorem execute_accounting:
  assumes "0 < num_bots m" and "0 \<le> mgr_retry_delay m"
  shows "\<exists>rep m' w' new.
      execute py order m tasks w = (Inr rep, m', w')
    \<and> all_results m' = all_results m @ new
    \<and> mset (map task new) = mset tasks
    \<and> (if tasks = [] then m' = m \<and> w' = w
        else report_results rep = all_results m'
          \<and> (\<exists>batches. divide_tasks (num_bots m) tasks = Inr batches
              \<and> int (length (bots m')) = num_bots m
              \<and> length batches = length (bots m')
              \<and> (\<forall>i < length (bots m').
                    bot_id (bots m' ! i) = int i
                  \<and> map task (results (bots m' ! i)) = batches ! i
                  \<and> tasks_completed (progress (bots m' ! i))
                      = int (length (filter success (results (bots m' ! i))))
                  \<and> tasks_failed (progress (bots m' ! i))
                      = int (length (filter (\<lambda>r. \<not> success r) (results (bots m' ! i))))
                  \<and> tasks_completed (progress (bots m' ! i))
                      + tasks_failed (progress (bots m' ! i))
                      = int (length (batches ! i))))
          \<and> (\<Sum>b\<leftarrow>bots m'. tasks_completed (progress b) + tasks_failed (progress b))
              = int (length tasks))"
proof (cases "tasks = []")
  case True
  then show ?thesis
    by (intro exI[of _ "compile_results py m []"] exI[of _ m] exI[of _ w] exI[of _ "[]"])
       (simp add: execute_def)
next
  case False
  define n where "n = nat (num_bots m)"
  obtain batches new m' w' where dv: "divide_tasks (num_bots m) tasks = Inr batches"
    and len: "length batches = n" and cat: "concat batches = tasks"
    and ex: "execute py order m tasks w = (Inr (compile_results py m' (all_results m')), m', w')"
    and res: "all_results m' = all_results m @ new" "mset (map task new) = mset tasks"
    and lb: "length (bots m') = n"
    and bot: "\<forall>i < n.
          bot_id (bots m' ! i) = int i
        \<and> pr_bot_id (progress (bots m' ! i)) = int i
        \<and> map task (results (bots m' ! i)) = batches ! i
        \<and> (\<forall>r \<in> set (results (bots m' ! i)). tr_bot_id r = int i)
        \<and> tasks_completed (progress (bots m' ! i))
            = int (length (filter success (results (bots m' ! i))))
        \<and> tasks_failed (progress (bots m' ! i))
            = int (length (filter (\<lambda>r. \<not> success r) (results (bots m' ! i))))
        \<and> state (progress (bots m' ! i)) = (if batches ! i = [] then IDLE else COMPLETED)
        \<and> (batches ! i = [] \<longrightarrow>
             bots m' ! i = Bot_init (int i) (mgr_task_processor m) (mgr_max_retries m)
                             (mgr_retry_delay m))"
    using execute_run[OF assms False, of py order w] unfolding n_def by blast
  have cnt: "tasks_completed (progress (bots m' ! i)) + tasks_failed (progress (bots m' ! i))
      = int (length (batches ! i))" if "i < n" for i
  proof -
    let ?rs = "results (bots m' ! i)"
    have "length (filter success ?rs) + length (filter (\<lambda>r. \<not> success r) ?rs) = length ?rs"
      by (rule sum_length_filter_compl)
    moreover have "length ?rs = length (batches ! i)"
      using bot that by (metis length_map)
    ultimately show ?thesis using bot that by simp
  qed
  have "map (\<lambda>b. tasks_completed (progress b) + tasks_failed (progress b)) (bots m')
      = map (\<lambda>x. int (length x)) batches"
    using cnt lb len by (intro nth_equalityI) simp_all
  then have total: "(\<Sum>b\<leftarrow>bots m'. tasks_completed (progress b) + tasks_failed (progress b))
      = int (length tasks)"
    by (simp only: sum_list_int_length cat)
  have nb: "int (length (bots m')) = num_bots m" using assms(1) by (simp add: lb n_def)
  have rr: "report_results (compile_results py m' (all_results m')) = all_results m'"
    by (simp add: compile_results_def Let_def)
  have per: "\<forall>i < length (bots m').
                    bot_id (bots m' ! i) = int i
                  \<and> map task (results (bots m' ! i)) = batches ! i
                  \<and> tasks_completed (progress (bots m' ! i))
                      = int (length (filter success (results (bots m' ! i))))
                  \<and> tasks_failed (progress (bots m' ! i))
                      = int (length (filter (\<lambda>r. \<not> success r) (results (bots m' ! i))))
                  \<and> tasks_completed (progress (bots m' ! i))
                      + tasks_failed (progress (bots m' ! i))
                      = int (length (batches ! i))"
    using bot cnt by (simp add: lb)
  have "\<exists>batches. divide_tasks (num_bots m) tasks = Inr batches
              \<and> int (length (bots m')) = num_bots m
              \<and> length batches = length (bots m')
              \<and> (\<forall>i < length (bots m').
                    bot_id (bots m' ! i) = int i
                  \<and> map task (results (bots m' ! i)) = batches ! i
                  \<and> tasks_completed (progress (bots m' ! i))
                      = int (length (filter success (results (bots m' ! i))))
                  \<and> tasks_failed (progress (bots m' ! i))
                      = int (length (filter (\<lambda>r. \<not> success r) (results (bots m' ! i))))
                  \<and> tasks_completed (progress (bots m' ! i))
                      + tasks_failed (progress (bots m' ! i))
                      = int (length (batches ! i)))"
    using len lb by (intro exI[of _ batches] conjI dv nb per) simp
  then show ?thesis
    using False ex res rr total
    by (intro exI[of _ "compile_results py m' (all_results m')"] exI[of _ m'] exI[of _ w']
          exI[of _ new]) simp
qed

theorem execute_accounting_witness:
  "(let m = \<lparr>num_bots = 2,
              mgr_task_processor =
                (\<lambda>(t::int) (s::nat).
                   (if t mod 2 = 0 then Returned (t * 10) else Raised ''odd'', Suc s)),
              mgr_max_retries = 2, mgr_retry_delay = 0, bots = [], all_results = []\<rparr>
    in 0 < num_bots m \<and> 0 \<le> mgr_retry_delay m
     \<and> (case execute \<lparr>truthy = (\<lambda>t. t \<noteq> 0), str = (\<lambda>t. ''task'')\<rparr> [1] m [1, 2, 3 :: int]
                \<lparr>proc_state = 0 :: nat, trace = []\<rparr> of
          (Inr rep, m', w') \<Rightarrow>
              map task (report_results rep) = [3, 1, 2]
            \<and> map success (report_results rep) = [False, False, True]
            \<and> map (\<lambda>b. (tasks_completed (progress b), tasks_failed (progress b))) (bots m')
                = [(1, 1), (0, 1)]
        | (Inl e, m', w') \<Rightarrow> False))"
proof -
  let ?m = "\<lparr>num_bots = 2,
              mgr_task_processor =
                (\<lambda>(t::int) (s::nat).
                   (if t mod 2 = 0 then Returned (t * 10) else Raised ''odd'', Suc s)),
              mgr_max_retries = 2, mgr_retry_delay = 0, bots = [], all_results = []\<rparr>"
  have h1: "0 < num_bots ?m" by simp
  have h2: "0 \<le> mgr_retry_delay ?m" by simp
  have a: "(case execute \<lparr>truthy = (\<lambda>t. t \<noteq> 0), str = (\<lambda>t. ''task'')\<rparr> [1] ?m [1, 2, 3 :: int]
                \<lparr>proc_state = 0 :: nat, trace = []\<rparr> of
          (Inr rep, m', w') \<Rightarrow>
              map task (report_results rep) = [3, 1, 2]
            \<and> map success (report_results rep) = [False, False, True]
            \<and> map (\<lambda>b. (tasks_completed (progress b), tasks_failed (progress b))) (bots m')
                = [(1, 1), (0, 1)]
        | (Inl e, m', w') \<Rightarrow> False)"
    by code_simp
  from execute_accounting[OF h1 h2, of "\<lparr>truthy = (\<lambda>t. t \<noteq> 0), str = (\<lambda>t. ''task'')\<rparr>" "[1]"
      "[1, 2, 3]" "\<lparr>proc_state = 0 :: nat, trace = []\<rparr>"] h1 h2 a
  show ?thesis by (simp only: Let_def) 
qed

section \<open>The progress list of a report\<close>

lemma divide_tasks_empty_iff:
  assumes "0 < W" and "divide_tasks W tasks = Inr batches" and "i < nat W"
  shows "batches ! i = [] \<longleftrightarrow> length tasks \<le> i"
proof -
  define w where "w = nat W"
  define b where "b = length tasks div w"
  define r where "r = length tasks mod w"
  have w: "0 < w" "W = int w" using assms(1) by (simp_all add: w_def)
  have iw: "i < w" using assms(3) by (simp add: w_def)
  have "batches = map (\<lambda>i. take (slice_start b r (Suc i) - slice_start b r i)
                     (drop (slice_start b r i) tasks)) [0..<w]"
    using divide_tasks_closed[OF w(1), of tasks] assms(2) unfolding w(2) b_def r_def by simp
  then have nth: "batches ! i = take (slice_start b r (Suc i) - slice_start b r i)
                     (drop (slice_start b r i) tasks)"
    using iw by simp
  have sz: "slice_start b r (Suc i) - slice_start b r i = b + (if i < r then 1 else 0)"
    by (simp add: slice_start_Suc)
  have "Suc i \<le> w" using iw by simp
  then have "slice_start b r (Suc i) \<le> slice_start b r w" by (rule slice_start_le)
  then have bound: "slice_start b r (Suc i) \<le> length tasks"
    unfolding b_def r_def by (simp add: slice_start_total[OF w(1)])
  have "batches ! i = [] \<longleftrightarrow> b + (if i < r then 1 else 0) = 0"
  proof
    assume "batches ! i = []"
    then have "take (slice_start b r (Suc i) - slice_start b r i)
                     (drop (slice_start b r i) tasks) = []"
      using nth by simp
    then have "slice_start b r (Suc i) - slice_start b r i = 0
        \<or> length tasks \<le> slice_start b r i"
      by (simp only: take_eq_Nil drop_eq_Nil)
    then have "slice_start b r (Suc i) - slice_start b r i = 0" using bound by linarith
    then show "b + (if i < r then 1 else 0) = 0" using sz by simp
  next
    assume "b + (if i < r then 1 else 0) = 0"
    then show "batches ! i = []" using nth sz by simp
  qed
  also have "\<dots> \<longleftrightarrow> length tasks \<le> i"
  proof (cases "length tasks < w")
    case True
    then have "b = 0" "r = length tasks" by (simp_all add: b_def r_def)
    then show ?thesis by auto
  next
    case False
    then have "0 < b" using w(1) by (simp add: b_def div_greater_zero_iff)
    then show ?thesis using False iw by simp
  qed
  finally show ?thesis .
qed

text \<open>
  C6 as stated does not hold.  With two workers and one task, worker \<open>0\<close> gets the task and
  worker \<open>1\<close> gets an empty slice and is not submitted to the pool: the processor is called
  once.  The list \<^verbatim>\<open>bot_progress\<close> of the report nevertheless has two snapshots, the second
  one for worker \<open>1\<close> in state \<^verbatim>\<open>idle\<close>, so it is not the list of the spawned workers.
\<close>

theorem bot_progress_includes_unspawned:
  "divide_tasks 2 [''a''] = Inr [[''a''], []]
   \<and> spawned [[''a''], []] = [0]
   \<and> (case execute \<lparr>truthy = (\<lambda>t. t \<noteq> []), str = (\<lambda>t. t)\<rparr> []
              \<lparr>num_bots = 2, mgr_task_processor = (\<lambda>(t::string) (s::unit). (Returned (length t), s)),
               mgr_max_retries = 3, mgr_retry_delay = 1, bots = [], all_results = []\<rparr>
              [''a''] \<lparr>proc_state = (), trace = []\<rparr> of
        (Inr rep, m', w') \<Rightarrow>
            map d_bot_id (bot_progress rep) = [0, 1]
          \<and> map d_state (bot_progress rep) = [''completed'', ''idle'']
          \<and> map d_bot_id (bot_progress rep) \<noteq> map int (spawned [[''a''], []])
          \<and> trace w' = [Invoke ''a'']
      | (Inl e, m', w') \<Rightarrow> False)"
  by code_simp

text \<open>
  C6, amended.  \<^verbatim>\<open>_compile_results\<close> takes a snapshot of every worker in \<^verbatim>\<open>self.bots\<close>, and
  \<^verbatim>\<open>execute\<close> creates \<^verbatim>\<open>num_bots\<close> workers before it divides the tasks.  So for a manager with
  \<open>W > 0\<close> workers and a retry delay that is not negative, and \<open>N > 0\<close> tasks, \<^verbatim>\<open>bot_progress\<close>
  has \<open>W\<close> snapshots, that of worker \<open>i\<close> at position \<open>i\<close>.  The slice of worker \<open>i\<close> is empty
  exactly when \<open>N \<le> i\<close>; the snapshot of such a worker, which was never run, shows the
  state \<^verbatim>\<open>idle\<close>, zero counts, no current task and no error; the snapshot of a worker
  with a slice that is not empty shows the state \<^verbatim>\<open>completed\<close>; and in every snapshot
  \<^verbatim>\<open>tasks_completed + tasks_failed\<close> is the size of the slice.
\<close>

theorem bot_progress_all_workers:
  assumes "0 < num_bots m" and "0 \<le> mgr_retry_delay m" and "tasks \<noteq> []"
  shows "\<exists>rep m' w' batches.
      execute py order m tasks w = (Inr rep, m', w')
    \<and> divide_tasks (num_bots m) tasks = Inr batches
    \<and> int (length (bot_progress rep)) = num_bots m
    \<and> length batches = length (bot_progress rep)
    \<and> (\<forall>i < length (bot_progress rep).
          d_bot_id (bot_progress rep ! i) = int i
        \<and> (batches ! i = [] \<longleftrightarrow> length tasks \<le> i)
        \<and> d_tasks_completed (bot_progress rep ! i) + d_tasks_failed (bot_progress rep ! i)
            = int (length (batches ! i))
        \<and> (if batches ! i = []
            then bot_progress rep ! i
                 = \<lparr>d_bot_id = int i, d_state = ''idle'', d_tasks_completed = 0,
                    d_tasks_failed = 0, d_current_task = None, d_error_message = None\<rparr>
            else d_state (bot_progress rep ! i) = ''completed''))"
proof -
  define n where "n = nat (num_bots m)"
  obtain batches new m' w' where dv: "divide_tasks (num_bots m) tasks = Inr batches"
    and len: "length batches = n" and cat: "concat batches = tasks"
    and ex: "execute py order m tasks w = (Inr (compile_results py m' (all_results m')), m', w')"
    and lb: "length (bots m') = n"
    and bot: "\<forall>i < n.
          bot_id (bots m' ! i) = int i
        \<and> pr_bot_id (progress (bots m' ! i)) = int i
        \<and> map task (results (bots m' ! i)) = batches ! i
        \<and> (\<forall>r \<in> set (results (bots m' ! i)). tr_bot_id r = int i)
        \<and> tasks_completed (progress (bots m' ! i))
            = int (length (filter success (results (bots m' ! i))))
        \<and> tasks_failed (progress (bots m' ! i))
            = int (length (filter (\<lambda>r. \<not> success r) (results (bots m' ! i))))
        \<and> state (progress (bots m' ! i)) = (if batches ! i = [] then IDLE else COMPLETED)
        \<and> (batches ! i = [] \<longrightarrow>
             bots m' ! i = Bot_init (int i) (mgr_task_processor m) (mgr_max_retries m)
                             (mgr_retry_delay m))"
    using execute_run[OF assms, of py order w] unfolding n_def by blast
  let ?rep = "compile_results py m' (all_results m')"
  have bp: "bot_progress ?rep = map (\<lambda>b. to_dict py (get_progress b)) (bots m')"
    by (simp add: compile_results_def Let_def)
  have l: "length (bot_progress ?rep) = n" by (simp add: bp lb)
  have nb: "int (length (bot_progress ?rep)) = num_bots m" using assms(1) by (simp add: l n_def)
  have per: "d_bot_id (bot_progress ?rep ! i) = int i
        \<and> (batches ! i = [] \<longleftrightarrow> length tasks \<le> i)
        \<and> d_tasks_completed (bot_progress ?rep ! i) + d_tasks_failed (bot_progress ?rep ! i)
            = int (length (batches ! i))
        \<and> (if batches ! i = []
            then bot_progress ?rep ! i
                 = \<lparr>d_bot_id = int i, d_state = ''idle'', d_tasks_completed = 0,
                    d_tasks_failed = 0, d_current_task = None, d_error_message = None\<rparr>
            else d_state (bot_progress ?rep ! i) = ''completed'')" if i: "i < n" for i
  proof -
    let ?b = "bots m' ! i"
    let ?rs = "results ?b"
    have nth: "bot_progress ?rep ! i = to_dict py (get_progress ?b)"
      using i by (simp add: bp lb)
    have "length (filter success ?rs) + length (filter (\<lambda>r. \<not> success r) ?rs) = length ?rs"
      by (rule sum_length_filter_compl)
    moreover have "length ?rs = length (batches ! i)" using bot i by (metis length_map)
    ultimately have cnt: "tasks_completed (progress ?b) + tasks_failed (progress ?b)
        = int (length (batches ! i))"
      using bot i by simp
    have a: "d_bot_id (bot_progress ?rep ! i) = int i"
      using bot i by (simp add: nth to_dict_def get_progress_def)
    have b: "batches ! i = [] \<longleftrightarrow> length tasks \<le> i"
      using i by (intro divide_tasks_empty_iff[OF assms(1) dv]) (simp add: n_def)
    have c: "d_tasks_completed (bot_progress ?rep ! i) + d_tasks_failed (bot_progress ?rep ! i)
            = int (length (batches ! i))"
      using cnt by (simp add: nth to_dict_def get_progress_def)
    have d: "bot_progress ?rep ! i
                 = \<lparr>d_bot_id = int i, d_state = ''idle'', d_tasks_completed = 0,
                    d_tasks_failed = 0, d_current_task = None, d_error_message = None\<rparr>"
      if "batches ! i = []"
    proof -
      have "?b = Bot_init (int i) (mgr_task_processor m) (mgr_max_retries m) (mgr_retry_delay m)"
        using bot i that by simp
      then show ?thesis
        by (simp add: nth to_dict_def get_progress_def Bot_init_def BotProgress_init_def)
    qed
    have e: "d_state (bot_progress ?rep ! i) = ''completed''" if "batches ! i \<noteq> []"
      using bot i that by (simp add: nth to_dict_def get_progress_def)
    show ?thesis using a b c d e by simp
  qed
  show ?thesis
    using ex dv nb len l per 
    by (intro exI[of _ ?rep] exI[of _ m'] exI[of _ w'] exI[of _ batches]) simp
qed

theorem bot_progress_all_workers_witness:
  "(let m = \<lparr>num_bots = 3, mgr_task_processor = (\<lambda>(t::string) (s::unit). (Returned (length t), s)),
              mgr_max_retries = 3, mgr_retry_delay = 1, bots = [], all_results = []\<rparr>
    in 0 < num_bots m \<and> 0 \<le> mgr_retry_delay m \<and> [''a'', ''b''] \<noteq> []
     \<and> (case execute \<lparr>truthy = (\<lambda>t. t \<noteq> []), str = (\<lambda>t. t)\<rparr> [1] m [''a'', ''b'']
                \<lparr>proc_state = (), trace = []\<rparr> of
          (Inr rep, m', w') \<Rightarrow>
              bot_progress rep =
                [\<lparr>d_bot_id = 0, d_state = ''completed'', d_tasks_completed = 1,
                  d_tasks_failed = 0, d_current_task = None, d_error_message = None\<rparr>,
                 \<lparr>d_bot_id = 1, d_state = ''completed'', d_tasks_completed = 1,
                  d_tasks_failed = 0, d_current_task = None, d_error_message = None\<rparr>,
                 \<lparr>d_bot_id = 2, d_state = ''idle'', d_tasks_completed = 0,
                  d_tasks_failed = 0, d_current_task = None, d_error_message = None\<rparr>]
        | (Inl e, m', w') \<Rightarrow> False))"
proof -
  let ?m = "\<lparr>num_bots = 3, mgr_task_processor = (\<lambda>(t::string) (s::unit). (Returned (length t), s)),
              mgr_max_retries = 3, mgr_retry_delay = 1, bots = [], all_results = []\<rparr>"
  let ?py = "\<lparr>truthy = (\<lambda>t. t \<noteq> []), str = (\<lambda>t::string. t)\<rparr>"
  have h1: "0 < num_bots ?m" by simp
  have h2: "0 \<le> mgr_retry_delay ?m" by simp
  have h3: "[''a'', ''b''] \<noteq> []" by simp
  have a: "(case execute ?py [1] ?m [''a'', ''b''] \<lparr>proc_state = (), trace = []\<rparr> of
          (Inr rep, m', w') \<Rightarrow>
              bot_progress rep =
                [\<lparr>d_bot_id = 0, d_state = ''completed'', d_tasks_completed = 1,
                  d_tasks_failed = 0, d_current_task = None, d_error_message = None\<rparr>,
                 \<lparr>d_bot_id = 1, d_state = ''completed'', d_tasks_completed = 1,
                  d_tasks_failed = 0, d_current_task = None, d_error_message = None\<rparr>,
                 \<lparr>d_bot_id = 2, d_state = ''idle'', d_tasks_completed = 0,
                  d_tasks_failed = 0, d_current_task = None, d_error_message = None\<rparr>]
        | (Inl e, m', w') \<Rightarrow> False)"
    by code_simp
  show ?thesis
    unfolding Let_def
    using bot_progress_all_workers[OF h1 h2 h3, of ?py "[1]" "\<lparr>proc_state = (), trace = []\<rparr>"]
      h1 h2 h3 a
    by - (intro conjI, assumption+)
qed

section \<open>Results accumulate over calls of \<^verbatim>\<open>execute\<close>\<close>

text \<open>
  C9 (results accumulate).  Take a manager with a positive number of workers and a retry
  delay that is not negative, and two task lists \<open>T1\<close> and \<open>T2\<close> that are not empty.
  \<^verbatim>\<open>execute(T1)\<close> followed by \<^verbatim>\<open>execute(T2)\<close> on the same manager both return a report; the
  results of the first report are the results the manager held before, followed by one
  result for each task of \<open>T1\<close>; the results of the second report are all the results of
  the first report, followed by one result for each task of \<open>T2\<close>.  So \<^verbatim>\<open>total_tasks\<close> of
  the second report is the number of results held before plus \<open>len(T1) + len(T2)\<close>, which
  is \<open>len(T1) + len(T2)\<close> for a manager that held no results, as it is after construction.
\<close>

theorem results_accumulate:
  assumes "0 < num_bots m" and "0 \<le> mgr_retry_delay m" and "T1 \<noteq> []" and "T2 \<noteq> []"
  shows "\<exists>rep1 m1 w1 rep2 m2 w2 new1 new2.
      execute py order1 m T1 w = (Inr rep1, m1, w1)
    \<and> execute py order2 m1 T2 w1 = (Inr rep2, m2, w2)
    \<and> report_results rep1 = all_results m @ new1 \<and> mset (map task new1) = mset T1
    \<and> report_results rep2 = report_results rep1 @ new2 \<and> mset (map task new2) = mset T2
    \<and> total_tasks rep1 = int (length (all_results m)) + int (length T1)
    \<and> total_tasks rep2 = int (length (all_results m)) + int (length T1) + int (length T2)"
proof -
  obtain new1 m1 w1 where
    ex1: "execute py order1 m T1 w = (Inr (compile_results py m1 (all_results m1)), m1, w1)"
    and r1: "all_results m1 = all_results m @ new1" "mset (map task new1) = mset T1"
    and f1: "num_bots m1 = num_bots m" "mgr_retry_delay m1 = mgr_retry_delay m"
    using execute_run[OF assms(1,2,3), of py order1 w] by blast
  have p1: "0 < num_bots m1" "0 \<le> mgr_retry_delay m1" using assms(1,2) f1 by simp_all
  obtain new2 m2 w2 where
    ex2: "execute py order2 m1 T2 w1 = (Inr (compile_results py m2 (all_results m2)), m2, w2)"
    and r2: "all_results m2 = all_results m1 @ new2" "mset (map task new2) = mset T2"
    using execute_run[OF p1 assms(4), of py order2 w1] by blast
  have l1: "length new1 = length T1" using mset_eq_length[OF r1(2)] by simp
  have l2: "length new2 = length T2" using mset_eq_length[OF r2(2)] by simp
  let ?rep1 = "compile_results py m1 (all_results m1)"
  let ?rep2 = "compile_results py m2 (all_results m2)"
  have a: "report_results ?rep1 = all_results m @ new1"
    by (simp add: compile_results_def Let_def r1(1))
  have b: "report_results ?rep2 = report_results ?rep1 @ new2"
    by (simp add: compile_results_def Let_def r2(1))
  have c: "total_tasks ?rep1 = int (length (all_results m)) + int (length T1)"
    by (simp add: compile_results_def Let_def r1(1) l1)
  have d: "total_tasks ?rep2 = int (length (all_results m)) + int (length T1) + int (length T2)"
    by (simp add: compile_results_def Let_def r2(1) r1(1) l1 l2)
  show ?thesis
    using ex1 ex2 a r1(2) b r2(2) c d by blast
qed

theorem results_accumulate_witness:
  "(case BotManager_init 2
          (\<lambda>(t::int) (s::nat). (if t mod 2 = 0 then Returned (t * 10) else Raised ''odd'', Suc s))
          2 0 of
      Inl e \<Rightarrow> False
    | Inr m \<Rightarrow>
        0 < num_bots m \<and> 0 \<le> mgr_retry_delay m \<and> [1, 2, 3 :: int] \<noteq> [] \<and> [4 :: int] \<noteq> []
      \<and> (case execute \<lparr>truthy = (\<lambda>t. t \<noteq> 0), str = (\<lambda>t. ''task'')\<rparr> [] m [1, 2, 3]
                 \<lparr>proc_state = 0 :: nat, trace = []\<rparr> of
           (Inl e, m1, w1) \<Rightarrow> False
         | (Inr rep1, m1, w1) \<Rightarrow>
             (case execute \<lparr>truthy = (\<lambda>t. t \<noteq> 0), str = (\<lambda>t. ''task'')\<rparr> [] m1 [4] w1 of
                (Inl e, m2, w2) \<Rightarrow> False
              | (Inr rep2, m2, w2) \<Rightarrow>
                  total_tasks rep1 = 3 \<and> total_tasks rep2 = 4
                \<and> map task (report_results rep1) = [1, 2, 3]
                \<and> map task (report_results rep2) = [1, 2, 3, 4])))"
proof -
  let ?proc = "\<lambda>(t::int) (s::nat). (if t mod 2 = 0 then Returned (t * 10) else Raised ''odd'', Suc s)"
  let ?m = "\<lparr>num_bots = 2, mgr_task_processor = ?proc, mgr_max_retries = 2,
             mgr_retry_delay = 0, bots = [], all_results = []\<rparr>"
  let ?py = "\<lparr>truthy = (\<lambda>t::int. t \<noteq> 0), str = (\<lambda>t. ''task'')\<rparr>"
  let ?w = "\<lparr>proc_state = 0 :: nat, trace = []\<rparr>"
  have i: "BotManager_init 2 ?proc 2 0 = Inr ?m" by (simp add: BotManager_init_def)
  have h1: "0 < num_bots ?m" by simp
  have h2: "0 \<le> mgr_retry_delay ?m" by simp
  have h3: "[1, 2, 3 :: int] \<noteq> []" by simp
  have h4: "[4 :: int] \<noteq> []" by simp
  have a: "(case execute ?py [] ?m [1, 2, 3] ?w of
           (Inl e, m1, w1) \<Rightarrow> False
         | (Inr rep1, m1, w1) \<Rightarrow>
             (case execute ?py [] m1 [4] w1 of
                (Inl e, m2, w2) \<Rightarrow> False
              | (Inr rep2, m2, w2) \<Rightarrow>
                  total_tasks rep1 = 3 \<and> total_tasks rep2 = 4
                \<and> map task (report_results rep1) = [1, 2, 3]
                \<and> map task (report_results rep2) = [1, 2, 3, 4]))"
    by code_simp
  show ?thesis
    unfolding i sum.case
    using results_accumulate[OF h1 h2 h3 h4, of ?py "[]" ?w "[]"] h1 h2 h3 h4 a
    by - (intro conjI, assumption+)
qed

end
